theory Spec2Isabelle
  imports Complex_Main "HOL-Library.AList"
begin

section \<open>JavaScript values\<close>

text \<open>
  The persistence and backup code of the English visualizer is TypeScript, but the
  records it reads from a backup file come out of \<^verbatim>\<open>JSON.parse\<close> with type
  \<^verbatim>\<open>any\<close>: the declared types are erased at run time, so a property that the
  code calls a string may be a number, an array or missing.  The values are therefore
  modelled as they exist at run time.  \<open>JUndefined\<close> is the value of a property
  that an object does not have.
\<close>

datatype jsval =
    JUndefined
  | JNull
  | JBool bool
  | JNum rat
  | JStr string
  | JArr "jsval list"
  | JObj "(string \<times> jsval) list"

datatype js_error = SyntaxError | TypeError | DataError

text \<open>The conversion to boolean that \<^verbatim>\<open>if (x)\<close>, \<^verbatim>\<open>x && y\<close>, \<^verbatim>\<open>x || y\<close> and
  \<^verbatim>\<open>!x\<close> apply to a value.\<close>

fun truthy :: "jsval \<Rightarrow> bool" where
  "truthy JUndefined = False"
| "truthy JNull = False"
| "truthy (JBool b) = b"
| "truthy (JNum n) = (n \<noteq> 0)"
| "truthy (JStr s) = (s \<noteq> [])"
| "truthy (JArr xs) = True"
| "truthy (JObj kvs) = True"

text \<open>Reading a property of \<^verbatim>\<open>null\<close> or \<^verbatim>\<open>undefined\<close> raises a TypeError.  The
  properties read by the code (\<^verbatim>\<open>type\<close>, \<^verbatim>\<open>id\<close>, \<^verbatim>\<open>base64\<close>, \<^verbatim>\<open>text\<close>) exist on
  no number, boolean, string or array, so there the read gives \<^verbatim>\<open>undefined\<close>.\<close>

fun nullish :: "jsval \<Rightarrow> bool" where
  "nullish JUndefined = True"
| "nullish JNull = True"
| "nullish v = False"

fun prop_of :: "jsval \<Rightarrow> string \<Rightarrow> jsval" where
  "prop_of (JObj kvs) p = (case map_of kvs p of None \<Rightarrow> JUndefined | Some v \<Rightarrow> v)"
| "prop_of v p = JUndefined"

section \<open>The image store (dbService.ts)\<close>

text \<open>
  The object store \<^verbatim>\<open>images\<close> of the IndexedDB database holds at most one value per
  key.  It is modelled as an association list in the order in which the store
  enumerates its keys; no statement below depends on where a new key lands in that
  order.  \<^verbatim>\<open>initDB\<close> opens or creates the database on every call and is taken to
  succeed, and the requests are taken to meet no input/output failure.

  \<^verbatim>\<open>store.put(value, key)\<close> accepts as key a number, a string or an array of keys
  and raises a DataError for every other value; the exception is raised inside the
  promise's executor, so the promise of \<^verbatim>\<open>saveImage\<close> rejects.
\<close>

type_synonym image_store = "(jsval \<times> jsval) list"

fun valid_key :: "jsval \<Rightarrow> bool" where
  "valid_key (JNum n) = True"
| "valid_key (JStr s) = True"
| "valid_key (JArr xs) = list_all valid_key xs"
| "valid_key v = False"

definition put :: "jsval \<Rightarrow> jsval \<Rightarrow> image_store \<Rightarrow> image_store" where
  "put v k db = AList.update k v db"

definition store_get :: "jsval \<Rightarrow> image_store \<Rightarrow> jsval" where
  "store_get k db = (case map_of db k of None \<Rightarrow> JUndefined | Some v \<Rightarrow> v)"

definition saveImage :: "jsval \<Rightarrow> jsval \<Rightarrow> image_store \<Rightarrow> js_error + image_store" where
  "saveImage ident base64 db =
     (if valid_key ident then Inr (put base64 ident db) else Inl DataError)"

text \<open>\<^verbatim>\<open>resolve(request.result || null)\<close>: a stored value that converts to false is
  replaced by \<^verbatim>\<open>null\<close>, as the result for a key that is not in the store is.\<close>

definition getImage :: "jsval \<Rightarrow> image_store \<Rightarrow> jsval" where
  "getImage ident db =
     (let result = store_get ident db in if truthy result then result else JNull)"

definition getAllKeys :: "image_store \<Rightarrow> jsval list" where
  "getAllKeys db = map fst db"


text \<open>The invariant of every state of the object store: one entry per key, and every
  key is one that \<^verbatim>\<open>put\<close> accepts.\<close>

definition wf_store :: "image_store \<Rightarrow> bool" where
  "wf_store db = (distinct (map fst db) \<and> list_all valid_key (map fst db))"

text \<open>Modelled from the spec: \<^verbatim>\<open>iterateImages\<close> is imported from dbService.ts by the
  backup service, but the file under study does not define it.  The specification of
  the backup export says: for every key in the Image Store, as enumerated by
  \<^verbatim>\<open>listKeys\<close>, one fetch per key via \<^verbatim>\<open>get\<close>; keys whose fetch returns absent are
  skipped silently.  The function below returns the pairs on which the callback is
  invoked, in order.\<close>

definition iterateImages :: "image_store \<Rightarrow> (jsval \<times> jsval) list" where
  "iterateImages db =
     concat (map (\<lambda>key. let base64 = getImage key db
                          in if truthy base64 then [(key, base64)] else [])
                 (getAllKeys db))"

section \<open>Progress percentages\<close>

text \<open>
  \<^verbatim>\<open>Math.round((processed / total) * 100)\<close> is computed on IEEE doubles.  The division
  and the multiplication each round their exact result to a double; that rounding is
  the parameter \<open>fl\<close>, of which the proofs use only that it is monotone and leaves
  1 and 100 unchanged.  \<^verbatim>\<open>Math.round\<close> is exact: the nearest integer, a tie going
  up.
\<close>

definition Math_round :: "rat \<Rightarrow> int" where
  "Math_round x = \<lfloor>x + 1 / 2\<rfloor>"

definition percent :: "(rat \<Rightarrow> rat) \<Rightarrow> nat \<Rightarrow> nat \<Rightarrow> int" where
  "percent fl processed totalN = Math_round (fl (fl (of_nat processed / of_nat totalN) * 100))"

definition rounding :: "(rat \<Rightarrow> rat) \<Rightarrow> bool" where
  "rounding fl = ((\<forall>x y. x \<le> y \<longrightarrow> fl x \<le> fl y) \<and> fl 1 = 1 \<and> fl 100 = 100)"

section \<open>The segmented snapshot export (exportToSQLiteChunks)\<close>

text \<open>
  A chunk is a fresh database with the one table
  \<^verbatim>\<open>images (id TEXT PRIMARY KEY, base64 TEXT)\<close>; it is modelled by the rows handed to
  \<^verbatim>\<open>stmt.run\<close>, in order.  The SQLite engine is a library, and an insert may raise:
  the engine cannot bind one of the two values, or the id, converted to text, is the id
  of a row that the table already holds (the keys \<^verbatim>\<open>1\<close> and \<^verbatim>\<open>'1'\<close> in one batch).
  Whether \<^verbatim>\<open>stmt.run([key, base64])\<close> raises is the parameter \<open>rejects\<close>, which is
  asked with the rows inserted into the chunk so far and the row to insert.  The insert
  sits in \<^verbatim>\<open>try\<close>/\<^verbatim>\<open>finally\<close> with no \<^verbatim>\<open>catch\<close>: a raise ends the generator, the
  chunk under construction is not yielded and nothing more is passed to
  \<^verbatim>\<open>onProgress\<close>.  The other calls into the engine (creating the table, preparing
  the statement, exporting the chunk) are taken to return.  The result of a run is the
  list of chunks yielded, the list of values passed to \<^verbatim>\<open>onProgress\<close> when the
  caller supplies one, and whether the generator ran to its end.
\<close>

definition CHUNK_SIZE :: nat where
  "CHUNK_SIZE = 50"

type_synonym snapshot_chunk = "(jsval \<times> jsval) list"

type_synonym insert_check = "snapshot_chunk \<Rightarrow> jsval \<times> jsval \<Rightarrow> bool"

datatype 'a engine_call = Raises | Returns 'a

record snapshot_export =
  yielded :: "snapshot_chunk list"
  announced :: "int list"
  ran_to_end :: bool

definition slice :: "'a list \<Rightarrow> nat \<Rightarrow> nat \<Rightarrow> 'a list" where
  "slice xs i j = take (j - i) (drop i xs)"

text \<open>The inner loop over the keys of one chunk, started with the rows already in the
  chunk: the progress values reported, and either the raise of an insert or the rows of
  the chunk and the counter \<^verbatim>\<open>processed\<close> afterwards.\<close>

fun fill_chunk ::
  "insert_check \<Rightarrow> (rat \<Rightarrow> rat) \<Rightarrow> image_store \<Rightarrow> nat \<Rightarrow> jsval list \<Rightarrow> nat \<Rightarrow> snapshot_chunk \<Rightarrow>
     int list \<times> (snapshot_chunk \<times> nat) engine_call"
where
  "fill_chunk rejects fl db totalN [] processed rows = ([], Returns (rows, processed))"
| "fill_chunk rejects fl db totalN (key # keys) processed rows =
     (let base64 = getImage key db in
      if truthy base64 \<and> rejects rows (key, base64) then ([], Raises)
      else
        (let rows' = (if truthy base64 then rows @ [(key, base64)] else rows);
             processed' = processed + 1;
             report = percent fl processed' totalN;
             rest = fill_chunk rejects fl db totalN keys processed' rows'
         in (report # fst rest, snd rest)))"

function export_loop ::
  "insert_check \<Rightarrow> (rat \<Rightarrow> rat) \<Rightarrow> image_store \<Rightarrow> jsval list \<Rightarrow> nat \<Rightarrow> nat \<Rightarrow> snapshot_export"
where
  "export_loop rejects fl db keys i processed =
     (if i < length keys then
        (let chunkKeys = slice keys i (i + CHUNK_SIZE);
             filled = fill_chunk rejects fl db (length keys) chunkKeys processed []
         in case snd filled of
              Raises \<Rightarrow> \<lparr>yielded = [], announced = fst filled, ran_to_end = False\<rparr>
            | Returns (rows, processed') \<Rightarrow>
                (let rest = export_loop rejects fl db keys (i + CHUNK_SIZE) processed'
                 in \<lparr>yielded = rows # yielded rest,
                     announced = fst filled @ announced rest,
                     ran_to_end = ran_to_end rest\<rparr>))
      else \<lparr>yielded = [], announced = [], ran_to_end = True\<rparr>)"
  by pat_completeness auto
termination
  by (relation "measure (\<lambda>(rejects, fl, db, keys, i, processed). length keys - i)")
     (auto simp: CHUNK_SIZE_def)

declare export_loop.simps [simp del]

definition exportToSQLiteChunks ::
  "insert_check \<Rightarrow> (rat \<Rightarrow> rat) \<Rightarrow> image_store \<Rightarrow> snapshot_export"
where
  "exportToSQLiteChunks rejects fl db =
     (let keys = getAllKeys db in export_loop rejects fl db keys 0 0)"

text \<open>One row per key whose fetch gives a value that converts to true: what the
  inner loop inserts for a batch of keys.\<close>

definition present_rows :: "image_store \<Rightarrow> jsval list \<Rightarrow> snapshot_chunk" where
  "present_rows db keys = [(key, getImage key db). key \<leftarrow> keys, truthy (getImage key db)]"

text \<open>No insert raises when the rows are inserted, in order, into a chunk that holds
  the rows of \<open>table\<close>.\<close>

fun accepted :: "insert_check \<Rightarrow> snapshot_chunk \<Rightarrow> snapshot_chunk \<Rightarrow> bool" where
  "accepted rejects table [] = True"
| "accepted rejects table (row # rows) =
     (\<not> rejects table row \<and> accepted rejects (table @ [row]) rows)"

text \<open>The chunk of a batch of keys can be filled: no insert of its rows raises.\<close>

definition fills :: "insert_check \<Rightarrow> image_store \<Rightarrow> jsval list \<Rightarrow> bool" where
  "fills rejects db keys = accepted rejects [] (present_rows db keys)"

text \<open>The specification's partition of the key list into consecutive batches of at
  most \<open>n\<close> keys.\<close>

function batches :: "nat \<Rightarrow> 'a list \<Rightarrow> 'a list list" where
  "batches n xs = (if n = 0 \<or> xs = [] then [] else take n xs # batches n (drop n xs))"
  by pat_completeness auto
termination
  by (relation "measure (\<lambda>(n, xs). length xs)") auto

declare batches.simps [simp del]

section \<open>The line-delimited backup: import (importBackup)\<close>

text \<open>
  Text is a list of 8-bit characters.  The file arrives as the sequence of text pieces
  that the reads of the stream decode to (the decoder is in streaming mode, so a
  character split between two reads is not broken); the model starts from those
  pieces.  \<^verbatim>\<open>JSON.parse\<close> belongs to the platform and is a parameter: \<open>None\<close> is
  the SyntaxError it raises.
\<close>

datatype status = Pending | Processing | Completed | Error

record EnglishSentence =
  sentence_id :: jsval
  english_text :: jsval
  imageUrl :: jsval
  status :: status

record import_state =
  idb :: image_store
  imageCount :: nat
  restoredSentences :: "EnglishSentence list"
  legacyImageIds :: "jsval list"

definition newline :: char where
  "newline = CHR 0x0A"

text \<open>\<^verbatim>\<open>s.split('\n')\<close>: the pieces between the newlines, one more than there are
  newlines.\<close>

fun split_nl :: "string \<Rightarrow> string list" where
  "split_nl [] = [[]]"
| "split_nl (c # cs) =
     (if c = newline then [] # split_nl cs
      else (c # hd (split_nl cs)) # tl (split_nl cs))"

text \<open>\<^verbatim>\<open>!line.trim()\<close>: the line is empty once its white space is removed.  Among
  the characters below 256, \<^verbatim>\<open>trim\<close> removes tab, line feed, vertical tab, form feed,
  carriage return, space and the no-break space.\<close>

definition js_whitespace :: "char \<Rightarrow> bool" where
  "js_whitespace c =
     (c \<in> set [CHR 0x09, CHR 0x0A, CHR 0x0B, CHR 0x0C, CHR 0x0D, CHR 0x20, CHR 0xA0])"

definition blank :: "string \<Rightarrow> bool" where
  "blank line = list_all js_whitespace line"

text \<open>The body of the inner \<^verbatim>\<open>try\<close> for a complete line, after \<^verbatim>\<open>JSON.parse\<close>.  An
  exception (reading \<^verbatim>\<open>data.type\<close> of \<^verbatim>\<open>null\<close>, a rejected \<^verbatim>\<open>saveImage\<close>) is
  the result \<open>Inl\<close>; it is raised before the state is touched.\<close>

definition dispatch_line :: "jsval \<Rightarrow> import_state \<Rightarrow> js_error + import_state" where
  "dispatch_line data st =
     (if nullish data then Inl TypeError
      else if prop_of data ''type'' = JStr ''sentence'' then
        Inr (st\<lparr>restoredSentences := restoredSentences st @
               [\<lparr>sentence_id = prop_of data ''id'', english_text = prop_of data ''text'',
                 imageUrl = JUndefined, status = Pending\<rparr>]\<rparr>)
      else if prop_of data ''type'' = JStr ''image'' then
        (if truthy (prop_of data ''id'') \<and> truthy (prop_of data ''base64'') then
           (case saveImage (prop_of data ''id'') (prop_of data ''base64'') (idb st) of
              Inl e \<Rightarrow> Inl e
            | Inr db' \<Rightarrow> Inr (st\<lparr>idb := db', imageCount := imageCount st + 1\<rparr>))
         else Inr st)
      else if truthy (prop_of data ''id'') \<and> truthy (prop_of data ''base64'') then
        (case saveImage (prop_of data ''id'') (prop_of data ''base64'') (idb st) of
           Inl e \<Rightarrow> Inl e
         | Inr db' \<Rightarrow>
             Inr (st\<lparr>idb := db', imageCount := imageCount st + 1,
                     legacyImageIds := legacyImageIds st @ [prop_of data ''id'']\<rparr>))
      else Inr st)"

text \<open>One iteration of \<^verbatim>\<open>for (const line of lines)\<close>: a blank line is skipped, and the
  \<^verbatim>\<open>catch\<close> logs whatever the \<^verbatim>\<open>try\<close> raised and goes on with the next line.\<close>

definition process_line :: "(string \<Rightarrow> jsval option) \<Rightarrow> string \<Rightarrow> import_state \<Rightarrow> import_state" where
  "process_line parse line st =
     (if blank line then st
      else case parse line of
             None \<Rightarrow> st
           | Some data \<Rightarrow> (case dispatch_line data st of Inl e \<Rightarrow> st | Inr st' \<Rightarrow> st'))"

text \<open>The code after the loop handles the retained tail with a copy of the dispatch
  that is written differently: the image branch and the branch for records without
  \<^verbatim>\<open>type\<close> are merged, and the id is recorded as a legacy id only if \<^verbatim>\<open>!data.type\<close>.\<close>

definition dispatch_leftover :: "jsval \<Rightarrow> import_state \<Rightarrow> js_error + import_state" where
  "dispatch_leftover data st =
     (if nullish data then Inl TypeError
      else if prop_of data ''type'' = JStr ''sentence'' then
        Inr (st\<lparr>restoredSentences := restoredSentences st @
               [\<lparr>sentence_id = prop_of data ''id'', english_text = prop_of data ''text'',
                 imageUrl = JUndefined, status = Pending\<rparr>]\<rparr>)
      else if prop_of data ''type'' = JStr ''image'' \<or>
              (truthy (prop_of data ''id'') \<and> truthy (prop_of data ''base64'')) then
        (if truthy (prop_of data ''id'') \<and> truthy (prop_of data ''base64'') then
           (case saveImage (prop_of data ''id'') (prop_of data ''base64'') (idb st) of
              Inl e \<Rightarrow> Inl e
            | Inr db' \<Rightarrow>
                Inr (st\<lparr>idb := db', imageCount := imageCount st + 1,
                        legacyImageIds :=
                          (if \<not> truthy (prop_of data ''type'')
                           then legacyImageIds st @ [prop_of data ''id'']
                           else legacyImageIds st)\<rparr>))
         else Inr st)
      else Inr st)"

definition process_leftover :: "(string \<Rightarrow> jsval option) \<Rightarrow> string \<Rightarrow> import_state \<Rightarrow> import_state" where
  "process_leftover parse leftover st =
     (if blank leftover then st
      else case parse leftover of
             None \<Rightarrow> st
           | Some data \<Rightarrow> (case dispatch_leftover data st of Inl e \<Rightarrow> st | Inr st' \<Rightarrow> st'))"

text \<open>The \<^verbatim>\<open>while (true)\<close> loop over the reads: \<^verbatim>\<open>leftover\<close> is prepended to the piece,
  the result is split at the newlines, the last element is popped into \<^verbatim>\<open>leftover\<close>
  and the others are processed in order.\<close>

fun read_loop ::
  "(string \<Rightarrow> jsval option) \<Rightarrow> string list \<Rightarrow> string \<Rightarrow> import_state \<Rightarrow> string \<times> import_state"
where
  "read_loop parse [] leftover st = (leftover, st)"
| "read_loop parse (chunk # chunks) leftover st =
     (let lines = split_nl (leftover @ chunk)
      in read_loop parse chunks (last lines) (fold (process_line parse) (butlast lines) st))"

text \<open>The result holds the three fields the function returns and the image store as
  the import leaves it.\<close>

definition importBackup ::
  "(string \<Rightarrow> jsval option) \<Rightarrow> string list \<Rightarrow> image_store \<Rightarrow> import_state"
where
  "importBackup parse chunks store =
     (let start = \<lparr>idb = store, imageCount = 0, restoredSentences = [], legacyImageIds = []\<rparr>;
          (leftover, st) = read_loop parse chunks [] start
      in process_leftover parse leftover st)"

section \<open>The line-delimited backup: export (exportBackup)\<close>

text \<open>
  \<^verbatim>\<open>JSON.stringify\<close> and the clock (\<^verbatim>\<open>new Date().toISOString()\<close>) are parameters.
  The export has two delivery paths that write the same lines: the File System Access
  API when the window supports it, and a Blob otherwise or when the first path raises
  an exception that is not an AbortError.  What the first path does is an input:
  it completes, or it raises after some number of records have been written and
  counted (none when the picker, \<^verbatim>\<open>createWritable\<close> or the header write raises),
  with a flag that tells whether the exception is an AbortError, on which the export
  returns and delivers nothing.  The result is the document delivered, as the list of
  strings written or pushed, and the values passed to \<^verbatim>\<open>onProgress\<close> when the
  caller supplies one.
\<close>

datatype direct_outcome = Completes | Throws nat bool

record export_result =
  delivered :: "string list option"
  progress :: "int list"

definition header_record :: "string \<Rightarrow> nat \<Rightarrow> jsval" where
  "header_record created totalImages =
     JObj [(''type'', JStr ''header''), (''version'', JNum 2), (''created'', JStr created),
           (''count'', JNum (of_nat totalImages))]"

definition sentence_record :: "EnglishSentence \<Rightarrow> jsval" where
  "sentence_record s =
     JObj [(''type'', JStr ''sentence''), (''id'', sentence_id s), (''text'', english_text s)]"

definition image_record :: "jsval \<times> jsval \<Rightarrow> jsval" where
  "image_record r = JObj [(''type'', JStr ''image''), (''id'', fst r), (''base64'', snd r)]"

definition reportProgress :: "(rat \<Rightarrow> rat) \<Rightarrow> nat \<Rightarrow> nat \<Rightarrow> int list" where
  "reportProgress fl totalItems processed =
     (if totalItems > 0 then
        (if processed mod 50 = 0 \<or> processed = totalItems
         then [percent fl processed totalItems] else [])
      else [])"

text \<open>Writing (or pushing) the records one after the other; each one increments
  \<^verbatim>\<open>processed\<close> and calls \<^verbatim>\<open>reportProgress\<close>.\<close>

fun write_records ::
  "(rat \<Rightarrow> rat) \<Rightarrow> nat \<Rightarrow> string list \<Rightarrow> nat \<Rightarrow> string list \<times> int list \<times> nat"
where
  "write_records fl totalItems [] processed = ([], [], processed)"
| "write_records fl totalItems (line # lines) processed =
     (let processed' = processed + 1;
          report = reportProgress fl totalItems processed';
          rest = write_records fl totalItems lines processed'
      in (line # fst rest, report @ fst (snd rest), snd (snd rest)))"

definition exportBackup ::
  "(rat \<Rightarrow> rat) \<Rightarrow> (jsval \<Rightarrow> string) \<Rightarrow> string \<Rightarrow> bool \<Rightarrow> direct_outcome \<Rightarrow>
     EnglishSentence list \<Rightarrow> image_store \<Rightarrow> export_result"
where
  "exportBackup fl stringify now supportsFileSystemAccess direct sentences store =
     (let keys = getAllKeys store;
          totalImages = length keys;
          totalItems = length sentences + totalImages;
          headerStr = stringify (header_record now totalImages) @ [newline];
          records = map (\<lambda>s. stringify (sentence_record s) @ [newline]) sentences @
                    map (\<lambda>r. stringify (image_record r) @ [newline]) (iterateImages store);
          blob = (\<lambda>processed reported.
                    let w = write_records fl totalItems records processed
                    in \<lparr>delivered = Some (headerStr # fst w),
                        progress = reported @ fst (snd w)\<rparr>)
      in if supportsFileSystemAccess then
           (case direct of
              Completes \<Rightarrow>
                (let w = write_records fl totalItems records 0
                 in \<lparr>delivered = Some (headerStr # fst w), progress = fst (snd w)\<rparr>)
            | Throws n abort \<Rightarrow>
                (let w = write_records fl totalItems (take n records) 0
                 in if abort then \<lparr>delivered = None, progress = fst (snd w)\<rparr>
                    else blob (snd (snd w)) (fst (snd w))))
         else blob 0 [])"

section \<open>The segmented snapshot import (importFromSQLite)\<close>

text \<open>
  The SQLite engine is a library.  The buffer is modelled by what the engine answers
  to the three calls the function makes on it: whether \<^verbatim>\<open>new SQL.Database\<close> returns,
  whether the query on \<^verbatim>\<open>sqlite_master\<close> finds a table named \<^verbatim>\<open>images\<close>, and the
  rows that \<^verbatim>\<open>SELECT id, base64 FROM images\<close> steps through.  A call into the engine
  may raise (the select does when the table lacks one of the two columns).
\<close>

record container =
  opens :: bool
  has_images_table :: "bool engine_call"
  image_rows :: "(jsval \<times> jsval) list engine_call"

datatype import_error = InvalidFormatError | InvalidSchemaError | EngineError | StoreError js_error

text \<open>The \<^verbatim>\<open>while (stmt.step())\<close> loop.  A rejected \<^verbatim>\<open>saveImage\<close> ends the function;
  the rows written before it stay in the store.\<close>

fun save_rows ::
  "(jsval \<times> jsval) list \<Rightarrow> image_store \<Rightarrow> nat \<Rightarrow> image_store \<times> (import_error + nat)"
where
  "save_rows [] store n = (store, Inr n)"
| "save_rows (row # rows) store n =
     (case saveImage (fst row) (snd row) store of
        Inl e \<Rightarrow> (store, Inl (StoreError e))
      | Inr store' \<Rightarrow> save_rows rows store' (n + 1))"

definition importFromSQLite :: "container \<Rightarrow> image_store \<Rightarrow> image_store \<times> (import_error + nat)" where
  "importFromSQLite fileBuffer store =
     (if \<not> opens fileBuffer then (store, Inl InvalidFormatError)
      else case has_images_table fileBuffer of
             Raises \<Rightarrow> (store, Inl EngineError)
           | Returns False \<Rightarrow> (store, Inl InvalidSchemaError)
           | Returns True \<Rightarrow>
               (case image_rows fileBuffer of
                  Raises \<Rightarrow> (store, Inl EngineError)
                | Returns rows \<Rightarrow> save_rows rows store 0))"

section \<open>Reconciliation (handleBackupImport)\<close>

text \<open>
  The updater passed to \<^verbatim>\<open>setSentences\<close> works on a \<^verbatim>\<open>Map\<close>, which keeps its keys in
  insertion order and compares them with SameValueZero: numbers, strings, booleans,
  \<^verbatim>\<open>null\<close> and \<^verbatim>\<open>undefined\<close> by value, arrays and objects by identity.  Every array
  or object here is a fresh result of \<^verbatim>\<open>JSON.parse\<close>, so it equals no other key.
\<close>

fun primitive :: "jsval \<Rightarrow> bool" where
  "primitive (JArr xs) = False"
| "primitive (JObj kvs) = False"
| "primitive v = True"

definition same_value_zero :: "jsval \<Rightarrow> jsval \<Rightarrow> bool" where
  "same_value_zero a b = (primitive a \<and> a = b)"

type_synonym id_map = "(jsval \<times> EnglishSentence) list"

definition map_has :: "jsval \<Rightarrow> id_map \<Rightarrow> bool" where
  "map_has k m = list_ex (\<lambda>e. same_value_zero (fst e) k) m"

fun map_set :: "jsval \<Rightarrow> EnglishSentence \<Rightarrow> id_map \<Rightarrow> id_map" where
  "map_set k v [] = [(k, v)]"
| "map_set k v (e # m) =
     (if same_value_zero (fst e) k then (fst e, v) # m else e # map_set k v m)"

definition placeholder :: "jsval \<Rightarrow> EnglishSentence" where
  "placeholder ident =
     \<lparr>sentence_id = ident, english_text = JStr ''(Restored Image - No Text Available)'',
      imageUrl = JUndefined, status = Completed\<rparr>"

definition reconcile ::
  "EnglishSentence list \<Rightarrow> EnglishSentence list \<Rightarrow> jsval list \<Rightarrow> EnglishSentence list"
where
  "reconcile prev restored legacy =
     (let idMap = fold (\<lambda>s. map_set (sentence_id s) s) prev [];
          idMap = fold (\<lambda>s. map_set (sentence_id s) s) restored idMap;
          idMap = fold (\<lambda>ident m. if \<not> map_has ident m then map_set ident (placeholder ident) m else m)
                    legacy idMap
      in map snd idMap)"

text \<open>\<^verbatim>\<open>handleBackupImport\<close>: the import, then the update of the sentence list.\<close>

definition handleBackupImport ::
  "(string \<Rightarrow> jsval option) \<Rightarrow> string list \<Rightarrow> image_store \<Rightarrow> EnglishSentence list \<Rightarrow>
     image_store \<times> EnglishSentence list"
where
  "handleBackupImport parse chunks store prev =
     (let r = importBackup parse chunks store
      in (idb r, reconcile prev (restoredSentences r) (legacyImageIds r)))"

section \<open>Notions used in the statements\<close>

text \<open>The text of a list of lines, each followed by a newline.\<close>

definition unlines :: "string list \<Rightarrow> string" where
  "unlines ls = concat (map (\<lambda>l. l @ [newline]) ls)"

text \<open>What the statements about a round trip ask of \<^verbatim>\<open>JSON.stringify\<close> and
  \<^verbatim>\<open>JSON.parse\<close> for a record \<open>r\<close>: the text has no newline and is not blank, and
  parsing it gives a value with the four properties that the import reads as they are
  in \<open>r\<close>.\<close>

definition codec_preserves :: "(string \<Rightarrow> jsval option) \<Rightarrow> (jsval \<Rightarrow> string) \<Rightarrow> jsval \<Rightarrow> bool" where
  "codec_preserves parse stringify r =
     (newline \<notin> set (stringify r) \<and> \<not> blank (stringify r) \<and>
      (case parse (stringify r) of
         None \<Rightarrow> False
       | Some r' \<Rightarrow>
           \<not> nullish r' \<and>
           prop_of r' ''type'' = prop_of r ''type'' \<and>
           prop_of r' ''id'' = prop_of r ''id'' \<and>
           prop_of r' ''base64'' = prop_of r ''base64'' \<and>
           prop_of r' ''text'' = prop_of r ''text''))"

text \<open>The store after a list of writes \<^verbatim>\<open>put(value, key)\<close>, given as pairs of key and
  value.\<close>

definition put_all :: "(jsval \<times> jsval) list \<Rightarrow> image_store \<Rightarrow> image_store" where
  "put_all ws store = fold (\<lambda>w. put (snd w) (fst w)) ws store"

text \<open>A step of the import has the effect \<open>(ws, ss, ids)\<close> when, from every state, it
  performs the writes \<open>ws\<close>, counts them, and appends the sentences \<open>ss\<close> and the
  legacy ids \<open>ids\<close>.\<close>

definition has_effect ::
  "(import_state \<Rightarrow> import_state) \<Rightarrow> (jsval \<times> jsval) list \<Rightarrow> EnglishSentence list \<Rightarrow> jsval list \<Rightarrow> bool"
where
  "has_effect f ws ss ids =
     (\<forall>st. f st =
        st\<lparr>idb := put_all ws (idb st), imageCount := imageCount st + length ws,
           restoredSentences := restoredSentences st @ ss,
           legacyImageIds := legacyImageIds st @ ids\<rparr>)"

text \<open>The shapes of a parsed record that the statements name: an image record and a
  legacy record with an id and a payload that convert to true and a key that the store
  accepts, and a record that carries both but has a type that converts to true and is
  neither \<open>sentence\<close> nor \<open>image\<close>.\<close>

definition is_image_record :: "jsval \<Rightarrow> bool" where
  "is_image_record d =
     (prop_of d ''type'' = JStr ''image'' \<and> truthy (prop_of d ''id'') \<and>
      truthy (prop_of d ''base64'') \<and> valid_key (prop_of d ''id''))"

definition is_legacy_record :: "jsval \<Rightarrow> bool" where
  "is_legacy_record d =
     (prop_of d ''type'' = JUndefined \<and> truthy (prop_of d ''id'') \<and>
      truthy (prop_of d ''base64'') \<and> valid_key (prop_of d ''id''))"

definition mistyped_image :: "jsval \<Rightarrow> bool" where
  "mistyped_image d =
     (truthy (prop_of d ''type'') \<and> prop_of d ''type'' \<noteq> JStr ''sentence'' \<and>
      prop_of d ''type'' \<noteq> JStr ''image'' \<and> truthy (prop_of d ''id'') \<and>
      truthy (prop_of d ''base64''))"

text \<open>The state after the image of a record has been written and counted.\<close>

definition image_written :: "jsval \<Rightarrow> import_state \<Rightarrow> import_state" where
  "image_written d st =
     st\<lparr>idb := put (prop_of d ''base64'') (prop_of d ''id'') (idb st),
        imageCount := imageCount st + 1\<rparr>"

definition initial_state :: "image_store \<Rightarrow> import_state" where
  "initial_state store =
     \<lparr>idb = store, imageCount = 0, restoredSentences = [], legacyImageIds = []\<rparr>"

text \<open>Two notions for the reconciliation: a map whose every entry is stored under the id
  of its sentence, and the step that \<^verbatim>\<open>legacyImageIds.forEach\<close> performs for one id.\<close>

definition keyed :: "id_map \<Rightarrow> bool" where
  "keyed m = (\<forall>e \<in> set m. sentence_id (snd e) = fst e)"

definition legacy_step :: "jsval \<Rightarrow> id_map \<Rightarrow> id_map" where
  "legacy_step ident m = (if \<not> map_has ident m then map_set ident (placeholder ident) m else m)"

text \<open>The records of a backup after the header, and the lines of the whole document.\<close>

definition backup_records :: "EnglishSentence list \<Rightarrow> image_store \<Rightarrow> jsval list" where
  "backup_records sentences store =
     map sentence_record sentences @ map image_record (iterateImages store)"

definition backup_lines ::
  "(jsval \<Rightarrow> string) \<Rightarrow> string \<Rightarrow> EnglishSentence list \<Rightarrow> image_store \<Rightarrow> string list"
where
  "backup_lines stringify now sentences store =
     map stringify (header_record now (length (getAllKeys store)) # backup_records sentences store)"

text \<open>The sentence that the import restores from the record of a sentence.\<close>

definition restored_sentence :: "EnglishSentence \<Rightarrow> EnglishSentence" where
  "restored_sentence s =
     \<lparr>sentence_id = sentence_id s, english_text = english_text s,
      imageUrl = JUndefined, status = Pending\<rparr>"

text \<open>The export runs on a single delivery path when the window lacks the File System
  Access API or the direct write completes.\<close>

definition single_path :: "bool \<Rightarrow> direct_outcome \<Rightarrow> bool" where
  "single_path supportsFileSystemAccess direct =
     (\<not> supportsFileSystemAccess \<or> direct = Completes)"

section \<open>Sample inputs\<close>

text \<open>Concrete inputs at which the statements below are instantiated: exact arithmetic
  in place of the rounding to doubles, and stores with numbered keys.\<close>

definition exact :: "rat \<Rightarrow> rat" where "exact x = x"

definition numbered_store :: "nat \<Rightarrow> image_store" where
  "numbered_store n = map (\<lambda>i. (JStr (replicate (Suc i) CHR ''k''), JStr ''data:,'')) [0..<n]"

definition store120 :: image_store where
  "store120 = (JStr ''blank'', JStr []) # numbered_store 119"

text \<open>Two answers of the engine to the inserts.  \<open>unique_ids\<close> raises exactly when
  the chunk already holds a row with the id of the row to insert, so it raises on no
  insert of a store whose keys are distinct: the engine at the sample stores, whose
  keys are distinct strings.  \<open>text_clash\<close> is the
  engine at a store with the keys \<^verbatim>\<open>1\<close> and \<^verbatim>\<open>'1'\<close>: the column converts the number
  to the text \<^verbatim>\<open>'1'\<close>, so the insert of the second key raises.\<close>

definition unique_ids :: insert_check where
  "unique_ids table row = (fst row \<in> set (map fst table))"

definition text_clash :: insert_check where
  "text_clash table row = (fst row = JStr ''1'' \<and> JNum 1 \<in> set (map fst table))"

definition number_and_text :: image_store where
  "number_and_text = [(JNum 1, JStr ''data:,a''), (JStr ''1'', JStr ''data:,b'')]"


text \<open>A fragment of JSON: some texts and the values they denote.  \<open>sample_parse\<close>
  and \<open>sample_stringify\<close> read the table in the two directions; a text that is not
  in the table does not parse.\<close>

definition header_line_2 :: string where
  \<open>header_line_2 = ''{"type":"header","version":2,"created":"2024-01-01T00:00:00.000Z","count":2}''\<close>

definition header_line_1 :: string where
  \<open>header_line_1 = ''{"type":"header","version":2,"created":"2024-01-01T00:00:00.000Z","count":1}''\<close>

definition sentence_line_s1 :: string where
  \<open>sentence_line_s1 = ''{"type":"sentence","id":"s1","text":"A cat sat."}''\<close>

definition sentence_line_x1 :: string where
  \<open>sentence_line_x1 = ''{"type":"sentence","id":"x1","text":"A dog ran."}''\<close>

definition image_line_s1 :: string where
  \<open>image_line_s1 = ''{"type":"image","id":"s1","base64":"data:image/png;base64,AAAA"}''\<close>

definition image_line_s2 :: string where
  \<open>image_line_s2 = ''{"type":"image","id":"s2","base64":"data:image/png;base64,BBBB"}''\<close>

definition image_line_nokey :: string where
  \<open>image_line_nokey = ''{"type":"image","id":"","base64":"data:image/png;base64,AAAA"}''\<close>

definition legacy_line_x1 :: string where
  \<open>legacy_line_x1 = ''{"id":"x1","base64":"data:image/png;base64,CCCC"}''\<close>

definition mistyped_line_x1 :: string where
  \<open>mistyped_line_x1 = ''{"type":"thumbnail","id":"x1","base64":"data:image/png;base64,CCCC"}''\<close>

definition malformed_line :: string where
  \<open>malformed_line = ''{"type":"image",''\<close>

definition sentence_s1 :: EnglishSentence where
  "sentence_s1 = \<lparr>sentence_id = JStr ''s1'', english_text = JStr ''A cat sat.'',
                   imageUrl = JUndefined, status = Pending\<rparr>"

definition sentence_x1 :: EnglishSentence where
  "sentence_x1 = \<lparr>sentence_id = JStr ''x1'', english_text = JStr ''A dog ran.'',
                   imageUrl = JUndefined, status = Pending\<rparr>"

definition image_s1 :: "jsval \<times> jsval" where
  "image_s1 = (JStr ''s1'', JStr ''data:image/png;base64,AAAA'')"

definition image_s2 :: "jsval \<times> jsval" where
  "image_s2 = (JStr ''s2'', JStr ''data:image/png;base64,BBBB'')"

definition image_nokey :: "jsval \<times> jsval" where
  "image_nokey = (JStr [], JStr ''data:image/png;base64,AAAA'')"

definition legacy_x1 :: jsval where
  "legacy_x1 = JObj [(''id'', JStr ''x1''), (''base64'', JStr ''data:image/png;base64,CCCC'')]"

definition mistyped_x1 :: jsval where
  "mistyped_x1 = JObj [(''type'', JStr ''thumbnail''), (''id'', JStr ''x1''),
                       (''base64'', JStr ''data:image/png;base64,CCCC'')]"

definition sample_now :: string where
  "sample_now = ''2024-01-01T00:00:00.000Z''"

definition json_table :: "(string \<times> jsval) list" where
  "json_table =
    [(header_line_2, header_record sample_now 2),
     (header_line_1, header_record sample_now 1),
     (sentence_line_s1, sentence_record sentence_s1),
     (sentence_line_x1, sentence_record sentence_x1),
     (image_line_s1, image_record image_s1),
     (image_line_s2, image_record image_s2),
     (image_line_nokey, image_record image_nokey),
     (legacy_line_x1, legacy_x1),
     (mistyped_line_x1, mistyped_x1)]"

definition sample_parse :: "string \<Rightarrow> jsval option" where
  "sample_parse line = map_of json_table line"

definition sample_stringify :: "jsval \<Rightarrow> string" where
  "sample_stringify v = (case map_of (map (\<lambda>e. (snd e, fst e)) json_table) v of
                           None \<Rightarrow> ''null'' | Some line \<Rightarrow> line)"

text \<open>The two images as a store.\<close>

definition two_images :: image_store where
  "two_images = [image_s1, image_s2]"

text \<open>Two buffers as the engine answers on them.  The first is a snapshot whose
  table holds a row with the id \<^verbatim>\<open>NULL\<close> before the row of the second image.  On
  the second the constructor returns and the first query raises.\<close>

definition chunk_null_then_s2 :: container where
  "chunk_null_then_s2 =
     \<lparr>opens = True, has_images_table = Returns True,
      image_rows = Returns [(JNull, JStr ''data:image/png;base64,AAAA''), image_s2]\<rparr>"

definition not_a_database :: container where
  "not_a_database = \<lparr>opens = True, has_images_table = Raises, image_rows = Raises\<rparr>"

text \<open>A store whose only value is the empty string, and fifty sentences.\<close>

definition one_empty_image :: image_store where
  "one_empty_image = [(JStr ''s1'', JStr [])]"

definition fifty_sentences :: "EnglishSentence list" where
  "fifty_sentences = replicate 50 sentence_s1"

text \<open>A store with two images, one of them under the empty key.\<close>

definition image_without_key :: image_store where
  "image_without_key = [image_nokey, image_s2]"

section \<open>Properties of the segmented snapshot export\<close>

lemma fill_chunk_accepted:
  "accepted rejects rows (present_rows db ks) \<Longrightarrow>
   fill_chunk rejects fl db t ks p rows =
     (map (\<lambda>j. percent fl j t) [Suc p ..< Suc (p + length ks)],
      Returns (rows @ present_rows db ks, p + length ks))"
proof (induction ks arbitrary: p rows)
  case Nil show ?case by (simp add: present_rows_def)
next
  case (Cons k ks)
  have u: "[Suc p ..< Suc (p + length (k # ks))] = Suc p # [Suc (Suc p) ..< Suc (Suc p + length ks)]"
    by (simp add: upt_conv_Cons del: upt_Suc)
  show ?case
  proof (cases "truthy (getImage k db)")
    case True
    with Cons.prems have a: "\<not> rejects rows (k, getImage k db)"
      and b: "accepted rejects (rows @ [(k, getImage k db)]) (present_rows db ks)"
      by (simp_all add: present_rows_def)
    show ?thesis
      unfolding u using True a Cons.IH[OF b, of "Suc p"]
      by (simp add: present_rows_def Let_def del: upt_Suc)
  next
    case False
    with Cons.prems have b: "accepted rejects rows (present_rows db ks)"
      by (simp add: present_rows_def)
    show ?thesis
      unfolding u using False Cons.IH[OF b, of "Suc p"]
      by (simp add: present_rows_def Let_def del: upt_Suc)
  qed
qed

lemma fill_chunk_rejected:
  "\<not> accepted rejects rows (present_rows db ks) \<Longrightarrow>
   snd (fill_chunk rejects fl db t ks p rows) = Raises \<and>
   (\<exists>m<length ks. fst (fill_chunk rejects fl db t ks p rows) =
       map (\<lambda>j. percent fl j t) [Suc p ..< Suc (p + m)])"
proof (induction ks arbitrary: p rows)
  case Nil then show ?case by (simp add: present_rows_def)
next
  case (Cons k ks)
  show ?case
  proof (cases "truthy (getImage k db) \<and> rejects rows (k, getImage k db)")
    case True
    then have "fill_chunk rejects fl db t (k # ks) p rows = ([], Raises)" by simp
    then show ?thesis by (intro conjI exI[of _ 0]) simp_all
  next
    case False
    let ?rows = "if truthy (getImage k db) then rows @ [(k, getImage k db)] else rows"
    from Cons.prems False have "\<not> accepted rejects ?rows (present_rows db ks)"
      by (auto simp: present_rows_def split: if_splits)
    from Cons.IH[OF this, of "Suc p"] obtain m where m: "m < length ks"
      and r: "snd (fill_chunk rejects fl db t ks (Suc p) ?rows) = Raises"
      and f: "fst (fill_chunk rejects fl db t ks (Suc p) ?rows) =
          map (\<lambda>j. percent fl j t) [Suc (Suc p) ..< Suc (Suc p + m)]"
      by blast
    have e: "fill_chunk rejects fl db t (k # ks) p rows =
        (percent fl (Suc p) t # fst (fill_chunk rejects fl db t ks (Suc p) ?rows),
         snd (fill_chunk rejects fl db t ks (Suc p) ?rows))"
      using False by (auto simp: Let_def)
    have u: "[Suc p ..< Suc (p + Suc m)] = Suc p # [Suc (Suc p) ..< Suc (Suc p + m)]"
      by (simp add: upt_conv_Cons del: upt_Suc)
    show ?thesis
    proof (intro conjI exI[of _ "Suc m"])
      show "snd (fill_chunk rejects fl db t (k # ks) p rows) = Raises" by (simp only: e snd_conv r)
      show "Suc m < length (k # ks)" using m by simp
      show "fst (fill_chunk rejects fl db t (k # ks) p rows) =
          map (\<lambda>j. percent fl j t) [Suc p ..< Suc (p + Suc m)]"
        unfolding u by (simp only: e fst_conv f list.map)
    qed
  qed
qed

lemma batches_step:
  "0 < n \<Longrightarrow> xs \<noteq> [] \<Longrightarrow> batches n xs = take n xs # batches n (drop n xs)"
  by (subst batches.simps) simp

lemma batches_Nil: "batches n [] = []"
  by (subst batches.simps) simp

lemma upt_split:
  "[Suc p ..< Suc (p + (a + b))] = [Suc p ..< Suc (p + a)] @ [Suc (p + a) ..< Suc (p + a + b)]"
  using upt_add_eq_append[of "Suc p" "Suc (p + a)" b] by (simp add: add.assoc del: upt_Suc)

lemma export_loop_eq:
  "yielded (export_loop rejects fl db keys i p) =
     map (present_rows db) (takeWhile (fills rejects db) (batches CHUNK_SIZE (drop i keys)))
   \<and> ran_to_end (export_loop rejects fl db keys i p) =
     list_all (fills rejects db) (batches CHUNK_SIZE (drop i keys))
   \<and> (\<exists>m \<le> length keys - i.
        announced (export_loop rejects fl db keys i p) =
          map (\<lambda>j. percent fl j (length keys)) [Suc p ..< Suc (p + m)]
        \<and> (ran_to_end (export_loop rejects fl db keys i p) \<longrightarrow> m = length keys - i))"
proof (induction rejects fl db keys i p rule: export_loop.induct)
  case (1 rejects fl db keys i p)
  let ?P = "\<lambda>j. percent fl j (length keys)"
  show ?case
  proof (cases "i < length keys")
    case False
    then have e: "export_loop rejects fl db keys i p =
        \<lparr>yielded = [], announced = [], ran_to_end = True\<rparr>"
      by (subst export_loop.simps) simp
    from False show ?thesis
      unfolding e by (simp add: batches_Nil)
  next
    case True
    then have ne: "drop i keys \<noteq> []" by simp
    let ?b = "take CHUNK_SIZE (drop i keys)"
    let ?n = "length ?b"
    have d: "drop CHUNK_SIZE (drop i keys) = drop (i + CHUNK_SIZE) keys"
      by (simp add: add.commute)
    have s: "slice keys i (i + CHUNK_SIZE) = ?b"
      by (simp add: slice_def)
    have b: "batches CHUNK_SIZE (drop i keys) = ?b # batches CHUNK_SIZE (drop (i + CHUNK_SIZE) keys)"
      using batches_step[OF _ ne, of CHUNK_SIZE] d by (simp add: CHUNK_SIZE_def)
    have n: "?n = min CHUNK_SIZE (length keys - i)" by simp
    show ?thesis
    proof (cases "fills rejects db ?b")
      case ok: True
      then have acc: "accepted rejects [] (present_rows db ?b)" by (simp add: fills_def)
      have f: "fill_chunk rejects fl db (length keys) ?b p [] =
          (map ?P [Suc p ..< Suc (p + ?n)], Returns (present_rows db ?b, p + ?n))"
        using fill_chunk_accepted[OF acc, of fl "length keys" p] by simp
      let ?rest = "export_loop rejects fl db keys (i + CHUNK_SIZE) (p + ?n)"
      have e: "export_loop rejects fl db keys i p =
          \<lparr>yielded = present_rows db ?b # yielded ?rest,
           announced = map ?P [Suc p ..< Suc (p + ?n)] @ announced ?rest,
           ran_to_end = ran_to_end ?rest\<rparr>"
        apply (subst export_loop.simps)
        apply (simp only: True if_True Let_def s f fst_conv snd_conv engine_call.case prod.case)
        done
      have "snd (fill_chunk rejects fl db (length keys) (slice keys i (i + CHUNK_SIZE)) p []) =
          Returns (present_rows db ?b, p + ?n)"
        by (simp only: s f snd_conv)
      from "1.IH"[OF True refl refl this refl]
      have y: "yielded ?rest = map (present_rows db)
            (takeWhile (fills rejects db) (batches CHUNK_SIZE (drop (i + CHUNK_SIZE) keys)))"
        and r: "ran_to_end ?rest = list_all (fills rejects db) (batches CHUNK_SIZE (drop (i + CHUNK_SIZE) keys))"
        and "\<exists>m \<le> length keys - (i + CHUNK_SIZE).
            announced ?rest = map ?P [Suc (p + ?n) ..< Suc (p + ?n + m)]
            \<and> (ran_to_end ?rest \<longrightarrow> m = length keys - (i + CHUNK_SIZE))"
        by blast+
      then obtain m where m: "m \<le> length keys - (i + CHUNK_SIZE)"
        and a: "announced ?rest = map ?P [Suc (p + ?n) ..< Suc (p + ?n + m)]"
        and full: "ran_to_end ?rest \<Longrightarrow> m = length keys - (i + CHUNK_SIZE)"
        by blast
      have sp: "[Suc p ..< Suc (p + (?n + m))] = [Suc p ..< Suc (p + ?n)] @ [Suc (p + ?n) ..< Suc (p + ?n + m)]"
        by (rule upt_split)
      have le: "?n + m \<le> length keys - i" using m True unfolding n min_def by auto
      have full': "?n + m = length keys - i" if "ran_to_end ?rest"
        using full[OF that] True unfolding n min_def by auto
      show ?thesis
      proof (intro conjI exI[of _ "?n + m"] impI)
        show "yielded (export_loop rejects fl db keys i p) =
            map (present_rows db) (takeWhile (fills rejects db) (batches CHUNK_SIZE (drop i keys)))"
          unfolding e b using ok y by simp
        show "ran_to_end (export_loop rejects fl db keys i p) =
            list_all (fills rejects db) (batches CHUNK_SIZE (drop i keys))"
          unfolding e b using ok r by simp
        show "?n + m \<le> length keys - i" by (rule le)
        show "announced (export_loop rejects fl db keys i p) = map ?P [Suc p ..< Suc (p + (?n + m))]"
          unfolding e sp by (simp only: snapshot_export.select_convs a map_append)
        show "?n + m = length keys - i" if "ran_to_end (export_loop rejects fl db keys i p)"
          using that full' unfolding e by simp
      qed
    next
      case no: False
      then have acc: "\<not> accepted rejects [] (present_rows db ?b)" by (simp add: fills_def)
      from fill_chunk_rejected[OF acc, of fl "length keys" p] obtain m where m: "m < ?n"
        and r: "snd (fill_chunk rejects fl db (length keys) ?b p []) = Raises"
        and f: "fst (fill_chunk rejects fl db (length keys) ?b p []) = map ?P [Suc p ..< Suc (p + m)]"
        by blast
      have e: "export_loop rejects fl db keys i p =
          \<lparr>yielded = [], announced = map ?P [Suc p ..< Suc (p + m)], ran_to_end = False\<rparr>"
        apply (subst export_loop.simps)
        apply (simp only: True if_True Let_def s r f engine_call.case)
        done
      have le: "m \<le> length keys - i" using m by (simp add: n)
      show ?thesis
      proof (intro conjI exI[of _ m] impI)
        show "yielded (export_loop rejects fl db keys i p) =
            map (present_rows db) (takeWhile (fills rejects db) (batches CHUNK_SIZE (drop i keys)))"
          unfolding e b using no by simp
        show "ran_to_end (export_loop rejects fl db keys i p) =
            list_all (fills rejects db) (batches CHUNK_SIZE (drop i keys))"
          unfolding e b using no by simp
        show "m \<le> length keys - i" by (rule le)
        show "announced (export_loop rejects fl db keys i p) = map ?P [Suc p ..< Suc (p + m)]"
          unfolding e by simp
        show "m = length keys - i" if "ran_to_end (export_loop rejects fl db keys i p)"
          using that unfolding e by simp
      qed
    qed
  qed
qed

lemma percent_mono:
  assumes "rounding fl" "p \<le> q"
  shows "percent fl p t \<le> percent fl q t"
proof -
  from assms(1) have mono: "\<And>x y. x \<le> y \<Longrightarrow> fl x \<le> fl y"
    by (simp add: rounding_def)
  have "(of_nat p :: rat) / of_nat t \<le> of_nat q / of_nat t"
    using assms(2) by (simp add: divide_right_mono)
  then have "fl (of_nat p / of_nat t) * 100 \<le> fl (of_nat q / of_nat t) * 100"
    using mono by simp
  then have "fl (fl (of_nat p / of_nat t) * 100) \<le> fl (fl (of_nat q / of_nat t) * 100)"
    by (rule mono)
  then show ?thesis
    unfolding percent_def Math_round_def by (intro floor_mono) simp
qed

lemma percent_full:
  assumes "rounding fl" "0 < t"
  shows "percent fl t t = 100"
proof -
  have "(of_nat t :: rat) / of_nat t = 1" using assms(2) by simp
  moreover have "\<lfloor>(100::rat) + 1 / 2\<rfloor> = 100"
    by (rule floor_unique) simp_all
  ultimately show ?thesis
    using assms(1) by (simp add: percent_def Math_round_def rounding_def)
qed

lemma sorted_percent_upt:
  assumes "rounding fl"
  shows "sorted (map (\<lambda>j. percent fl j t) [a ..< b])"
proof -
  have "sorted (map f xs)" if "sorted xs" "\<And>x y. x \<le> y \<Longrightarrow> f x \<le> f y"
    for f :: "nat \<Rightarrow> int" and xs
    using that by (induction xs) auto
  then show ?thesis using percent_mono[OF assms] by simp
qed

lemma concat_batches: "concat (batches n xs) = (if n = 0 then [] else xs)"
proof (induction n xs rule: batches.induct)
  case (1 n xs)
  show ?case
  proof (cases "n = 0 \<or> xs = []")
    case True then show ?thesis by (subst batches.simps) auto
  next
    case False
    with 1 show ?thesis by (subst batches.simps) simp
  qed
qed

lemma batches_bounds: "b \<in> set (batches n xs) \<Longrightarrow> 0 < length b \<and> length b \<le> n"
proof (induction n xs rule: batches.induct)
  case (1 n xs)
  show ?case
  proof (cases "n = 0 \<or> xs = []")
    case True with 1(2) show ?thesis by (subst (asm) batches.simps) simp
  next
    case False
    from 1(2) have "b = take n xs \<or> b \<in> set (batches n (drop n xs))"
      using False by (subst (asm) batches.simps) auto
    then show ?thesis
    proof
      assume "b = take n xs" with False show ?thesis by auto
    next
      assume "b \<in> set (batches n (drop n xs))"
      with 1(1)[OF False] show ?thesis by simp
    qed
  qed
qed

lemma batches_120:
  assumes "length xs = 120"
  shows "batches 50 xs = [take 50 xs, take 50 (drop 50 xs), drop 100 xs]"
proof -
  have 1: "xs \<noteq> []" "drop 50 xs \<noteq> []" "drop 100 xs \<noteq> []" using assms by auto
  have a: "batches 50 xs = take 50 xs # batches 50 (drop 50 xs)"
    using batches_step[of 50 xs] 1 by simp
  have b: "batches 50 (drop 50 xs) = take 50 (drop 50 xs) # batches 50 (drop 100 xs)"
    using batches_step[of 50 "drop 50 xs"] 1 by simp
  have c: "batches 50 (drop 100 xs) = [drop 100 xs]"
    using batches_step[of 50 "drop 100 xs"] 1 assms by (simp add: batches_Nil)
  show ?thesis by (simp only: a b c)
qed

lemma export_yielded:
  "yielded (exportToSQLiteChunks rejects fl db) =
     map (present_rows db) (takeWhile (fills rejects db) (batches CHUNK_SIZE (getAllKeys db)))"
  unfolding exportToSQLiteChunks_def Let_def
  using export_loop_eq[of rejects fl db "getAllKeys db" 0 0, THEN conjunct1] by simp

lemma export_ran_to_end:
  "ran_to_end (exportToSQLiteChunks rejects fl db) =
     list_all (fills rejects db) (batches CHUNK_SIZE (getAllKeys db))"
  unfolding exportToSQLiteChunks_def Let_def
  using export_loop_eq[of rejects fl db "getAllKeys db" 0 0, THEN conjunct2, THEN conjunct1] by simp

lemma export_announced:
  "\<exists>m \<le> length (getAllKeys db).
     announced (exportToSQLiteChunks rejects fl db) =
       map (\<lambda>j. percent fl j (length (getAllKeys db))) [Suc 0 ..< Suc m]
     \<and> (ran_to_end (exportToSQLiteChunks rejects fl db) \<longrightarrow> m = length (getAllKeys db))"
  unfolding exportToSQLiteChunks_def Let_def
  using export_loop_eq[of rejects fl db "getAllKeys db" 0 0, THEN conjunct2, THEN conjunct2] by simp

lemma export_yielded_all:
  assumes "list_all (fills rejects db) (batches CHUNK_SIZE (getAllKeys db))"
  shows "yielded (exportToSQLiteChunks rejects fl db) =
     map (present_rows db) (batches CHUNK_SIZE (getAllKeys db))"
proof -
  have "takeWhile (fills rejects db) (batches CHUNK_SIZE (getAllKeys db)) =
      batches CHUNK_SIZE (getAllKeys db)"
    using assms by (simp add: list_all_iff)
  then show ?thesis by (simp only: export_yielded)
qed


lemma accepted_unique_ids:
  "accepted unique_ids table rows =
     (distinct (map fst rows) \<and> set (map fst rows) \<inter> set (map fst table) = {})"
  by (induction rows arbitrary: table) (auto simp: unique_ids_def)

lemma map_fst_present_rows:
  "map fst (present_rows db ks) = filter (\<lambda>k. truthy (getImage k db)) ks"
  by (induction ks) (simp_all add: present_rows_def)

lemma fills_unique_ids: "distinct ks \<Longrightarrow> fills unique_ids db ks"
  by (simp add: fills_def accepted_unique_ids map_fst_present_rows)

lemma distinct_batches: "distinct xs \<Longrightarrow> b \<in> set (batches n xs) \<Longrightarrow> distinct b"
proof (induction n xs rule: batches.induct)
  case (1 n xs)
  show ?case
  proof (cases "n = 0 \<or> xs = []")
    case True with 1(3) show ?thesis by (subst (asm) batches.simps) simp
  next
    case False
    from 1(3) have "b = take n xs \<or> b \<in> set (batches n (drop n xs))"
      using False by (subst (asm) batches.simps) auto
    then show ?thesis
    proof
      assume "b = take n xs" with 1(2) show ?thesis by simp
    next
      assume "b \<in> set (batches n (drop n xs))"
      with 1(1)[OF False] 1(2) show ?thesis by simp
    qed
  qed
qed

lemma fills_unique_ids_store:
  assumes "distinct (getAllKeys db)"
  shows "list_all (fills unique_ids db) (batches n (getAllKeys db))"
  unfolding list_all_iff using distinct_batches[OF assms] fills_unique_ids by blast

lemma rounding_exact: "rounding exact"
  by (simp add: rounding_def exact_def)

lemma getImage_map_of:
  "map_of db k = Some v \<Longrightarrow> getImage k db = (if truthy v then v else JNull)"
  by (simp add: getImage_def store_get_def)

lemma getImage_absent: "map_of db k = None \<Longrightarrow> getImage k db = JNull"
  by (simp add: getImage_def store_get_def)

lemma truthy_getImage:
  assumes "list_all truthy (map snd db)" "k \<in> set (map fst db)"
  shows "truthy (getImage k db)"
proof -
  from assms(2) obtain v where v: "map_of db k = Some v"
    by (metis map_of_eq_None_iff not_Some_eq set_map)
  then have "(k, v) \<in> set db" by (rule map_of_SomeD)
  then have "truthy v" using assms(1) by (auto simp: list_all_iff)
  with v show ?thesis by (simp add: getImage_map_of)
qed

lemma length_present_rows:
  "length (present_rows db ks) = length (filter (\<lambda>k. truthy (getImage k db)) ks)"
  by (induction ks) (simp_all add: present_rows_def)

lemma length_present_rows_all:
  assumes "list_all truthy (map snd db)" "set ks \<subseteq> set (map fst db)"
  shows "length (present_rows db ks) = length ks"
proof -
  have "filter (\<lambda>k. truthy (getImage k db)) ks = ks"
  proof (rule filter_True)
    show "\<forall>k\<in>set ks. truthy (getImage k db)"
      using assms(2) truthy_getImage[OF assms(1)] by blast
  qed
  then show ?thesis by (simp add: length_present_rows)
qed

lemma set_batches: "0 < n \<Longrightarrow> b \<in> set (batches n xs) \<Longrightarrow> set b \<subseteq> set xs"
proof -
  assume n: "0 < n" and b: "b \<in> set (batches n xs)"
  from b have "set b \<subseteq> set (concat (batches n xs))" by auto
  with n show ?thesis by (simp add: concat_batches)
qed


text \<open>
  Claim C2, as the code has it.  The key list is cut into consecutive batches of at
  most 50 keys; with 120 keys the batches have 50, 50 and 20 keys.  When no insert
  into a chunk raises, the export yields one chunk per batch and runs to its end; a
  chunk holds one row for each key of its batch whose fetch gives a value that converts
  to true, so the three chunks hold 50, 50 and 20 rows when every stored value converts
  to true.  A store without keys yields no chunk.
\<close>

theorem snapshot_export_batches:
  "concat (batches CHUNK_SIZE (getAllKeys db)) = getAllKeys db
   \<and> (\<forall>b \<in> set (batches CHUNK_SIZE (getAllKeys db)). 0 < length b \<and> length b \<le> 50)
   \<and> (length (getAllKeys db) = 120 \<longrightarrow>
        map length (batches CHUNK_SIZE (getAllKeys db)) = [50, 50, 20])
   \<and> (list_all (fills rejects db) (batches CHUNK_SIZE (getAllKeys db)) \<longrightarrow>
        yielded (exportToSQLiteChunks rejects fl db) =
          map (present_rows db) (batches CHUNK_SIZE (getAllKeys db))
        \<and> ran_to_end (exportToSQLiteChunks rejects fl db))
   \<and> (list_all (fills rejects db) (batches CHUNK_SIZE (getAllKeys db)) \<and>
        list_all truthy (map snd db) \<longrightarrow>
        map length (yielded (exportToSQLiteChunks rejects fl db)) =
          map length (batches CHUNK_SIZE (getAllKeys db)))
   \<and> yielded (exportToSQLiteChunks rejects fl []) = []
   \<and> ran_to_end (exportToSQLiteChunks rejects fl [])"
proof (intro conjI impI ballI)
  show "concat (batches CHUNK_SIZE (getAllKeys db)) = getAllKeys db"
    by (simp add: concat_batches CHUNK_SIZE_def)
  show "0 < length b" "length b \<le> 50" if "b \<in> set (batches CHUNK_SIZE (getAllKeys db))" for b
    using batches_bounds[OF that] by (simp_all add: CHUNK_SIZE_def)
  show "map length (batches CHUNK_SIZE (getAllKeys db)) = [50, 50, 20]"
    if "length (getAllKeys db) = 120"
    using that by (simp add: CHUNK_SIZE_def batches_120)
  show "yielded (exportToSQLiteChunks rejects fl db) =
      map (present_rows db) (batches CHUNK_SIZE (getAllKeys db))"
    if "list_all (fills rejects db) (batches CHUNK_SIZE (getAllKeys db))"
    by (rule export_yielded_all[OF that])
  show "ran_to_end (exportToSQLiteChunks rejects fl db)"
    if "list_all (fills rejects db) (batches CHUNK_SIZE (getAllKeys db))"
    using that by (simp only: export_ran_to_end)
  show "map length (yielded (exportToSQLiteChunks rejects fl db)) =
      map length (batches CHUNK_SIZE (getAllKeys db))"
    if h: "list_all (fills rejects db) (batches CHUNK_SIZE (getAllKeys db)) \<and>
        list_all truthy (map snd db)"
  proof -
    from h have f: "list_all (fills rejects db) (batches CHUNK_SIZE (getAllKeys db))"
      and t: "list_all truthy (map snd db)" by simp_all
    have "length (present_rows db b) = length b" if "b \<in> set (batches CHUNK_SIZE (getAllKeys db))" for b
      using set_batches[OF _ that] t
      by (intro length_present_rows_all) (simp_all add: CHUNK_SIZE_def getAllKeys_def)
    then show ?thesis by (simp add: export_yielded_all[OF f])
  qed
  show "yielded (exportToSQLiteChunks rejects fl []) = []"
    by (simp add: export_yielded getAllKeys_def batches_Nil)
  show "ran_to_end (exportToSQLiteChunks rejects fl [])"
    by (simp add: export_ran_to_end getAllKeys_def batches_Nil)
qed

lemma length_numbered_store: "length (numbered_store n) = n"
  by (simp add: numbered_store_def)

lemma truthy_numbered_store: "list_all truthy (map snd (numbered_store n))"
  by (simp add: numbered_store_def list_all_iff)

lemma distinct_numbered_store: "distinct (map fst (numbered_store n))"
proof -
  have "inj_on (\<lambda>i. JStr (replicate (Suc i) CHR ''k'')) A" for A
  proof (rule inj_onI)
    fix i j
    assume "JStr (replicate (Suc i) CHR ''k'') = JStr (replicate (Suc j) CHR ''k'')"
    then have "length (replicate (Suc i) CHR ''k'') = length (replicate (Suc j) CHR ''k'')"
      by simp
    then show "i = j" by simp
  qed
  then show ?thesis
    by (simp add: numbered_store_def comp_def distinct_map)
qed

text \<open>The statement at a store of 120 keys with 120 non-empty values, the engine
  raising on no insert.\<close>

theorem snapshot_export_batches_witness:
  "length (getAllKeys (numbered_store 120)) = 120
   \<and> list_all (fills unique_ids (numbered_store 120))
        (batches CHUNK_SIZE (getAllKeys (numbered_store 120)))
   \<and> list_all truthy (map snd (numbered_store 120))
   \<and> length (yielded (exportToSQLiteChunks unique_ids exact (numbered_store 120))) = 3
   \<and> map length (yielded (exportToSQLiteChunks unique_ids exact (numbered_store 120))) = [50, 50, 20]
   \<and> ran_to_end (exportToSQLiteChunks unique_ids exact (numbered_store 120))"
proof -
  have l: "length (getAllKeys (numbered_store 120)) = 120"
    by (simp add: getAllKeys_def length_numbered_store)
  have f: "list_all (fills unique_ids (numbered_store 120))
        (batches CHUNK_SIZE (getAllKeys (numbered_store 120)))"
    by (rule fills_unique_ids_store) (simp add: getAllKeys_def distinct_numbered_store)
  have t: "list_all truthy (map snd (numbered_store 120))" by (rule truthy_numbered_store)
  note T = snapshot_export_batches[of "numbered_store 120" unique_ids exact]
  have a: "map length (batches CHUNK_SIZE (getAllKeys (numbered_store 120))) = [50, 50, 20]"
    by (rule T[THEN conjunct2, THEN conjunct2, THEN conjunct1, THEN mp, OF l])
  have r: "ran_to_end (exportToSQLiteChunks unique_ids exact (numbered_store 120))"
    by (rule T[THEN conjunct2, THEN conjunct2, THEN conjunct2, THEN conjunct1, THEN mp,
          OF f, THEN conjunct2])
  have b: "map length (yielded (exportToSQLiteChunks unique_ids exact (numbered_store 120))) =
      map length (batches CHUNK_SIZE (getAllKeys (numbered_store 120)))"
    by (rule T[THEN conjunct2, THEN conjunct2, THEN conjunct2, THEN conjunct2, THEN conjunct1,
          THEN mp, OF conjI[OF f t]])
  have c: "map length (yielded (exportToSQLiteChunks unique_ids exact (numbered_store 120))) = [50, 50, 20]"
    by (simp only: a b)
  have "length (map length (yielded (exportToSQLiteChunks unique_ids exact (numbered_store 120)))) = 3"
    by (simp only: c) simp
  then have d: "length (yielded (exportToSQLiteChunks unique_ids exact (numbered_store 120))) = 3"
    by (simp only: length_map)
  show ?thesis by (intro conjI l f t c d r)
qed

lemma percent_1_2: "percent exact 1 2 = 50"
proof -
  have "\<lfloor>(1 / 2 * 100 + 1 / 2 :: rat)\<rfloor> = 50" by (rule floor_unique) simp_all
  then show ?thesis by (simp add: percent_def Math_round_def exact_def)
qed

text \<open>A run in which an insert raises.  The store holds the keys \<^verbatim>\<open>1\<close> and
  \<^verbatim>\<open>'1'\<close>; the insert of the second raises, no chunk is yielded, and 50 is the only
  value passed to \<^verbatim>\<open>onProgress\<close>.\<close>

lemma snapshot_export_insert_raises:
  "wf_store number_and_text
   \<and> exportToSQLiteChunks text_clash exact number_and_text =
       \<lparr>yielded = [], announced = [50], ran_to_end = False\<rparr>"
proof -
  have w: "wf_store number_and_text"
    by (simp add: wf_store_def number_and_text_def)
  have k: "getAllKeys number_and_text = [JNum 1, JStr ''1'']"
    by (simp add: getAllKeys_def number_and_text_def)
  have g: "getImage (JNum 1) number_and_text = JStr ''data:,a''"
    "getImage (JStr ''1'') number_and_text = JStr ''data:,b''"
    by (simp_all add: getImage_def store_get_def number_and_text_def)
  have p: "percent exact (Suc 0) (Suc (Suc 0)) = 50"
    using percent_1_2 by (simp add: numeral_2_eq_2)
  have f: "fill_chunk text_clash exact number_and_text (length [JNum 1, JStr ''1''])
        [JNum 1, JStr ''1''] 0 [] = ([50], Raises)"
    by (simp add: g text_clash_def p)
  have s: "slice [JNum 1, JStr ''1''] 0 (0 + CHUNK_SIZE) = [JNum 1, JStr ''1'']"
    by (simp add: slice_def CHUNK_SIZE_def)
  have "export_loop text_clash exact number_and_text [JNum 1, JStr ''1''] 0 0 =
      \<lparr>yielded = [], announced = [50], ran_to_end = False\<rparr>"
    apply (subst export_loop.simps)
    apply (simp only: s f Let_def fst_conv snd_conv engine_call.case)
    apply simp
    done
  with w show ?thesis by (simp add: exportToSQLiteChunks_def k)
qed

lemma numbered_key_truthy:
  assumes "k \<in> set (map fst (numbered_store 119))"
  shows "truthy (getImage k store120)"
proof -
  from assms obtain i where k: "k = JStr (replicate (Suc i) CHR ''k'')"
    by (auto simp: numbered_store_def)
  then have ne: "k \<noteq> JStr ''blank''" by simp
  then have "getImage k store120 = getImage k (numbered_store 119)"
    by (simp add: getImage_def store_get_def store120_def)
  then show ?thesis
    using truthy_getImage[OF truthy_numbered_store assms] by simp
qed

lemma blank_key_absent: "getImage (JStr ''blank'') store120 = JNull"
  by (simp add: getImage_def store_get_def store120_def)

text \<open>Claim C2 as it is written fails on a store of 120 keys one of whose values is the
  empty string: no insert raises, and the first chunk holds 49 rows.\<close>

theorem snapshot_export_rows_counterexample:
  "length (getAllKeys store120) = 120
   \<and> map length (yielded (exportToSQLiteChunks unique_ids exact store120)) = [49, 50, 20]"
proof -
  let ?ks = "map fst (numbered_store 119)"
  have keys: "getAllKeys store120 = JStr ''blank'' # ?ks"
    by (simp add: getAllKeys_def store120_def)
  have len: "length (getAllKeys store120) = 120"
    by (simp add: keys length_numbered_store)
  have "distinct (getAllKeys store120)"
    using distinct_numbered_store[of 119] by (auto simp: keys numbered_store_def)
  then have fl: "list_all (fills unique_ids store120) (batches CHUNK_SIZE (getAllKeys store120))"
    by (rule fills_unique_ids_store)
  have all: "length (present_rows store120 ks) = length ks" if "set ks \<subseteq> set ?ks" for ks
  proof -
    have "filter (\<lambda>k. truthy (getImage k store120)) ks = ks"
    proof (rule filter_True)
      show "\<forall>k\<in>set ks. truthy (getImage k store120)"
        using that numbered_key_truthy by blast
    qed
    then show ?thesis by (simp add: length_present_rows)
  qed
  have b1: "take 50 (getAllKeys store120) = JStr ''blank'' # take 49 ?ks"
    by (simp add: keys)
  have b2: "take 50 (drop 50 (getAllKeys store120)) = take 50 (drop 49 ?ks)"
    by (simp add: keys)
  have b3: "drop 100 (getAllKeys store120) = drop 99 ?ks"
    by (simp add: keys)
  have r1: "length (present_rows store120 (take 50 (getAllKeys store120))) = 49"
  proof -
    have "present_rows store120 (JStr ''blank'' # take 49 ?ks) = present_rows store120 (take 49 ?ks)"
      by (simp add: present_rows_def blank_key_absent)
    moreover have "length (present_rows store120 (take 49 ?ks)) = length (take 49 ?ks)"
      by (rule all) (rule set_take_subset)
    ultimately show ?thesis by (simp add: b1 length_numbered_store)
  qed
  have r2: "length (present_rows store120 (take 50 (drop 50 (getAllKeys store120)))) = 50"
  proof -
    have "set (take 50 (drop 49 ?ks)) \<subseteq> set ?ks"
      using set_take_subset set_drop_subset by (rule subset_trans)
    then have "length (present_rows store120 (take 50 (drop 49 ?ks))) = length (take 50 (drop 49 ?ks))"
      by (rule all)
    then show ?thesis by (simp add: b2 length_numbered_store)
  qed
  have r3: "length (present_rows store120 (drop 100 (getAllKeys store120))) = 20"
  proof -
    have "length (present_rows store120 (drop 99 ?ks)) = length (drop 99 ?ks)"
      by (rule all) (rule set_drop_subset)
    then show ?thesis by (simp add: b3 length_numbered_store)
  qed
  have "yielded (exportToSQLiteChunks unique_ids exact store120) =
      map (present_rows store120) [take 50 (getAllKeys store120),
        take 50 (drop 50 (getAllKeys store120)), drop 100 (getAllKeys store120)]"
    using batches_120[OF len] export_yielded_all[OF fl, of exact] by (simp add: CHUNK_SIZE_def)
  then have "map length (yielded (exportToSQLiteChunks unique_ids exact store120)) = [49, 50, 20]"
    by (simp only: list.map r1 r2 r3)
  with len show ?thesis by simp
qed






section \<open>Properties of the backup import\<close>

lemma split_nl_nonempty [simp]: "split_nl s \<noteq> []"
  by (induction s) auto

lemma split_nl_append:
  "split_nl (a @ b) = butlast (split_nl a) @ split_nl (last (split_nl a) @ b)"
proof (induction a)
  case Nil show ?case by simp
next
  case (Cons c a)
  obtain x xs where sp: "split_nl a = x # xs" by (cases "split_nl a") auto
  show ?case
  proof (cases "c = newline")
    case True
    then show ?thesis using Cons by simp
  next
    case False
    show ?thesis
    proof (cases xs)
      case Nil
      with sp Cons False show ?thesis by simp
    next
      case (Cons y ys)
      with sp Cons.IH False show ?thesis by simp
    qed
  qed
qed

lemma split_nl_no_newline: "newline \<notin> set s \<Longrightarrow> split_nl s = [s]"
  by (induction s) auto

lemma last_split_nl_no_newline: "newline \<notin> set (last (split_nl s))"
proof (induction s)
  case Nil show ?case by simp
next
  case (Cons c s)
  obtain x xs where sp: "split_nl s = x # xs" by (cases "split_nl s") auto
  with Cons show ?case by (cases xs) auto
qed

lemma read_loop_eq:
  "newline \<notin> set leftover \<Longrightarrow> read_loop parse chunks leftover st =
     (last (split_nl (leftover @ concat chunks)),
      fold (process_line parse) (butlast (split_nl (leftover @ concat chunks))) st)"
proof (induction chunks arbitrary: leftover st)
  case Nil
  then show ?case by (simp add: split_nl_no_newline)
next
  case (Cons c cs)
  let ?L = "split_nl (leftover @ c)"
  have "split_nl (leftover @ concat (c # cs)) = butlast ?L @ split_nl (last ?L @ concat cs)"
    using split_nl_append[of "leftover @ c" "concat cs"] by simp
  then show ?case
    using Cons.IH[OF last_split_nl_no_newline, of "leftover @ c"]
    by (simp add: Let_def butlast_append last_append)
qed

lemma importBackup_eq:
  "importBackup parse chunks store =
     process_leftover parse (last (split_nl (concat chunks)))
       (fold (process_line parse) (butlast (split_nl (concat chunks)))
          \<lparr>idb = store, imageCount = 0, restoredSentences = [], legacyImageIds = []\<rparr>)"
  by (simp add: importBackup_def read_loop_eq)

lemma split_nl_unlines:
  "list_all (\<lambda>l. newline \<notin> set l) ls \<Longrightarrow> split_nl (unlines ls @ rest) = ls @ split_nl rest"
proof (induction ls)
  case Nil show ?case by (simp add: unlines_def)
next
  case (Cons l ls)
  have "split_nl (l @ newline # s) = l # split_nl s" if "newline \<notin> set l" for s
    using that by (induction l) auto
  with Cons show ?case by (simp add: unlines_def)
qed

lemma importBackup_lines:
  assumes "concat chunks = unlines ls @ rest" "list_all (\<lambda>l. newline \<notin> set l) ls"
    "newline \<notin> set rest"
  shows "importBackup parse chunks store =
     process_leftover parse rest
       (fold (process_line parse) ls
          \<lparr>idb = store, imageCount = 0, restoredSentences = [], legacyImageIds = []\<rparr>)"
  using assms by (simp add: importBackup_eq split_nl_unlines split_nl_no_newline)

lemma put_all_Nil [simp]: "put_all [] store = store"
  by (simp add: put_all_def)

lemma put_all_Cons [simp]: "put_all (w # ws) store = put_all ws (put (snd w) (fst w) store)"
  by (simp add: put_all_def)

lemma put_all_append [simp]: "put_all (ws @ ws') store = put_all ws' (put_all ws store)"
  by (simp add: put_all_def)

lemma has_effect_id: "has_effect (\<lambda>st. st) [] [] []"
  by (simp add: has_effect_def)

lemma has_effect_comp:
  assumes "has_effect f ws ss ids" "has_effect g ws' ss' ids'"
  shows "has_effect (\<lambda>st. g (f st)) (ws @ ws') (ss @ ss') (ids @ ids')"
  using assms by (simp add: has_effect_def)

lemma dispatch_line_cases:
  fixes data
  defines "i \<equiv> prop_of data ''id''" and "b \<equiv> prop_of data ''base64''" and "t \<equiv> prop_of data ''type''"
  shows "(case dispatch_line data st of Inl e \<Rightarrow> st | Inr st' \<Rightarrow> st') =
     (if nullish data then st
      else if t = JStr ''sentence'' then
        st\<lparr>restoredSentences := restoredSentences st @
            [\<lparr>sentence_id = i, english_text = prop_of data ''text'',
              imageUrl = JUndefined, status = Pending\<rparr>]\<rparr>
      else if truthy i \<and> truthy b \<and> valid_key i then
        (if t = JStr ''image'' then st\<lparr>idb := put b i (idb st), imageCount := imageCount st + 1\<rparr>
         else st\<lparr>idb := put b i (idb st), imageCount := imageCount st + 1,
                 legacyImageIds := legacyImageIds st @ [i]\<rparr>)
      else st)"
  unfolding i_def b_def t_def by (auto simp: dispatch_line_def saveImage_def)

lemma dispatch_leftover_cases:
  fixes data
  defines "i \<equiv> prop_of data ''id''" and "b \<equiv> prop_of data ''base64''" and "t \<equiv> prop_of data ''type''"
  shows "(case dispatch_leftover data st of Inl e \<Rightarrow> st | Inr st' \<Rightarrow> st') =
     (if nullish data then st
      else if t = JStr ''sentence'' then
        st\<lparr>restoredSentences := restoredSentences st @
            [\<lparr>sentence_id = i, english_text = prop_of data ''text'',
              imageUrl = JUndefined, status = Pending\<rparr>]\<rparr>
      else if truthy i \<and> truthy b \<and> valid_key i then
        (if truthy t then st\<lparr>idb := put b i (idb st), imageCount := imageCount st + 1\<rparr>
         else st\<lparr>idb := put b i (idb st), imageCount := imageCount st + 1,
                 legacyImageIds := legacyImageIds st @ [i]\<rparr>)
      else st)"
  unfolding i_def b_def t_def by (auto simp: dispatch_leftover_def saveImage_def)

lemma dispatch_line_effect:
  "\<exists>ws ss ids. set ids \<subseteq> fst ` set ws \<and> list_all valid_key (map fst ws) \<and>
     has_effect (\<lambda>st. case dispatch_line data st of Inl e \<Rightarrow> st | Inr st' \<Rightarrow> st') ws ss ids"
proof -
  let ?i = "prop_of data ''id''" and ?b = "prop_of data ''base64''" and ?t = "prop_of data ''type''"
  let ?f = "\<lambda>st. case dispatch_line data st of Inl e \<Rightarrow> st | Inr st' \<Rightarrow> st'"
  consider (none) "nullish data \<or> (?t \<noteq> JStr ''sentence'' \<and> \<not> (truthy ?i \<and> truthy ?b \<and> valid_key ?i))"
    | (sent) "\<not> nullish data" "?t = JStr ''sentence''"
    | (img) "\<not> nullish data" "?t = JStr ''image''" "truthy ?i \<and> truthy ?b \<and> valid_key ?i"
    | (leg) "\<not> nullish data" "?t \<noteq> JStr ''sentence''" "?t \<noteq> JStr ''image''"
        "truthy ?i \<and> truthy ?b \<and> valid_key ?i"
    by blast
  then show ?thesis
  proof cases
    case none
    then have "has_effect ?f [] [] []"
      unfolding has_effect_def dispatch_line_cases by auto
    then show ?thesis by force
  next
    case sent
    then have "has_effect ?f [] [\<lparr>sentence_id = ?i, english_text = prop_of data ''text'',
                 imageUrl = JUndefined, status = Pending\<rparr>] []"
      unfolding has_effect_def dispatch_line_cases by simp
    then show ?thesis by force
  next
    case img
    then have "has_effect ?f [(?i, ?b)] [] []"
      unfolding has_effect_def dispatch_line_cases by simp
    moreover have "list_all valid_key (map fst [(?i, ?b)])" using img by simp
    ultimately show ?thesis by force
  next
    case leg
    then have "has_effect ?f [(?i, ?b)] [] [?i]"
      unfolding has_effect_def dispatch_line_cases by simp
    moreover have "list_all valid_key (map fst [(?i, ?b)])" "set [?i] \<subseteq> fst ` set [(?i, ?b)]"
      using leg by simp_all
    ultimately show ?thesis by blast
  qed
qed

lemma dispatch_leftover_effect:
  "\<exists>ws ss ids. set ids \<subseteq> fst ` set ws \<and> list_all valid_key (map fst ws) \<and>
     has_effect (\<lambda>st. case dispatch_leftover data st of Inl e \<Rightarrow> st | Inr st' \<Rightarrow> st') ws ss ids"
proof -
  let ?i = "prop_of data ''id''" and ?b = "prop_of data ''base64''" and ?t = "prop_of data ''type''"
  let ?f = "\<lambda>st. case dispatch_leftover data st of Inl e \<Rightarrow> st | Inr st' \<Rightarrow> st'"
  consider (none) "nullish data \<or> (?t \<noteq> JStr ''sentence'' \<and> \<not> (truthy ?i \<and> truthy ?b \<and> valid_key ?i))"
    | (sent) "\<not> nullish data" "?t = JStr ''sentence''"
    | (img) "\<not> nullish data" "?t \<noteq> JStr ''sentence''" "truthy ?t" "truthy ?i \<and> truthy ?b \<and> valid_key ?i"
    | (leg) "\<not> nullish data" "?t \<noteq> JStr ''sentence''" "\<not> truthy ?t"
        "truthy ?i \<and> truthy ?b \<and> valid_key ?i"
    by blast
  then show ?thesis
  proof cases
    case none
    then have "has_effect ?f [] [] []"
      unfolding has_effect_def dispatch_leftover_cases by auto
    then show ?thesis by force
  next
    case sent
    then have "has_effect ?f [] [\<lparr>sentence_id = ?i, english_text = prop_of data ''text'',
                 imageUrl = JUndefined, status = Pending\<rparr>] []"
      unfolding has_effect_def dispatch_leftover_cases by simp
    then show ?thesis by force
  next
    case img
    then have "has_effect ?f [(?i, ?b)] [] []"
      unfolding has_effect_def dispatch_leftover_cases by simp
    moreover have "list_all valid_key (map fst [(?i, ?b)])" using img by simp
    ultimately show ?thesis by force
  next
    case leg
    then have "has_effect ?f [(?i, ?b)] [] [?i]"
      unfolding has_effect_def dispatch_leftover_cases by simp
    moreover have "list_all valid_key (map fst [(?i, ?b)])" "set [?i] \<subseteq> fst ` set [(?i, ?b)]"
      using leg by simp_all
    ultimately show ?thesis by blast
  qed
qed

lemma process_line_effect:
  "\<exists>ws ss ids. set ids \<subseteq> fst ` set ws \<and> list_all valid_key (map fst ws) \<and>
     has_effect (process_line parse l) ws ss ids"
proof (cases "blank l \<or> parse l = None")
  case True
  then have "process_line parse l = (\<lambda>st. st)"
    by (auto simp: process_line_def fun_eq_iff)
  then have "has_effect (process_line parse l) [] [] []" by (simp add: has_effect_id)
  then show ?thesis by force
next
  case False
  then obtain data where d: "parse l = Some data" by auto
  with False have "process_line parse l =
      (\<lambda>st. case dispatch_line data st of Inl e \<Rightarrow> st | Inr st' \<Rightarrow> st')"
    by (simp add: process_line_def fun_eq_iff)
  then show ?thesis using dispatch_line_effect[of data] by simp
qed

lemma process_leftover_effect:
  "\<exists>ws ss ids. set ids \<subseteq> fst ` set ws \<and> list_all valid_key (map fst ws) \<and>
     has_effect (process_leftover parse l) ws ss ids"
proof (cases "blank l \<or> parse l = None")
  case True
  then have "process_leftover parse l = (\<lambda>st. st)"
    by (auto simp: process_leftover_def fun_eq_iff)
  then have "has_effect (process_leftover parse l) [] [] []" by (simp add: has_effect_id)
  then show ?thesis by force
next
  case False
  then obtain data where d: "parse l = Some data" by auto
  with False have "process_leftover parse l =
      (\<lambda>st. case dispatch_leftover data st of Inl e \<Rightarrow> st | Inr st' \<Rightarrow> st')"
    by (simp add: process_leftover_def fun_eq_iff)
  then show ?thesis using dispatch_leftover_effect[of data] by simp
qed

lemma fold_process_line_effect:
  "\<exists>ws ss ids. set ids \<subseteq> fst ` set ws \<and> list_all valid_key (map fst ws) \<and>
     has_effect (fold (process_line parse) ls) ws ss ids"
proof (induction ls rule: rev_induct)
  case Nil
  have "has_effect (fold (process_line parse) []) [] [] []"
    using has_effect_id by (simp add: id_def)
  moreover have "set ([]::jsval list) \<subseteq> fst ` set ([]::(jsval \<times> jsval) list)"
    "list_all valid_key (map fst ([]::(jsval \<times> jsval) list))" by simp_all
  ultimately show ?case by blast
next
  case (snoc l ls)
  from snoc obtain ws ss ids where 1: "set ids \<subseteq> fst ` set ws" "list_all valid_key (map fst ws)"
      "has_effect (fold (process_line parse) ls) ws ss ids" by blast
  from process_line_effect[of parse l] obtain ws' ss' ids' where
    2: "set ids' \<subseteq> fst ` set ws'" "list_all valid_key (map fst ws')"
      "has_effect (process_line parse l) ws' ss' ids'" by blast
  have "has_effect (fold (process_line parse) (ls @ [l])) (ws @ ws') (ss @ ss') (ids @ ids')"
    using has_effect_comp[OF 1(3) 2(3)] by (simp add: comp_def)
  moreover have "set (ids @ ids') \<subseteq> fst ` set (ws @ ws')" using 1(1) 2(1) by auto
  moreover have "list_all valid_key (map fst (ws @ ws'))" using 1(2) 2(2) by simp
  ultimately show ?case by blast
qed

lemma importBackup_effect:
  "\<exists>ws ss ids. set ids \<subseteq> fst ` set ws \<and> list_all valid_key (map fst ws) \<and>
     (\<forall>store. importBackup parse chunks store =
        \<lparr>idb = put_all ws store, imageCount = length ws,
         restoredSentences = ss, legacyImageIds = ids\<rparr>)"
proof -
  let ?ls = "butlast (split_nl (concat chunks))" and ?r = "last (split_nl (concat chunks))"
  from fold_process_line_effect[of parse ?ls] obtain ws ss ids where
    1: "set ids \<subseteq> fst ` set ws" "list_all valid_key (map fst ws)"
      "has_effect (fold (process_line parse) ?ls) ws ss ids" by blast
  from process_leftover_effect[of parse ?r] obtain ws' ss' ids' where
    2: "set ids' \<subseteq> fst ` set ws'" "list_all valid_key (map fst ws')"
      "has_effect (process_leftover parse ?r) ws' ss' ids'" by blast
  have "\<forall>store. importBackup parse chunks store =
        \<lparr>idb = put_all (ws @ ws') store, imageCount = length (ws @ ws'),
         restoredSentences = ss @ ss', legacyImageIds = ids @ ids'\<rparr>"
    using has_effect_comp[OF 1(3) 2(3)] by (simp add: importBackup_eq has_effect_def)
  moreover have "set (ids @ ids') \<subseteq> fst ` set (ws @ ws')" using 1(1) 2(1) by auto
  moreover have "list_all valid_key (map fst (ws @ ws'))" using 1(2) 2(2) by simp
  ultimately show ?thesis by blast
qed

lemma map_of_put_all: "map_of (put_all ws store) = map_of store ++ map_of (rev ws)"
proof (induction ws arbitrary: store)
  case Nil show ?case by simp
next
  case (Cons w ws)
  have "map_of (put (snd w) (fst w) store) = (map_of store)(fst w \<mapsto> snd w)"
    by (simp add: put_def update_conv')
  then show ?case
    by (cases w) (simp add: Cons.IH map_add_def fun_eq_iff split: option.splits)
qed

lemma keys_put_all: "fst ` set (put_all ws store) = fst ` set store \<union> fst ` set ws"
  by (induction ws arbitrary: store) (auto simp: put_def dom_update)

lemma keys_put_all_present:
  "fst ` set ws \<subseteq> fst ` set store \<Longrightarrow> map fst (put_all ws store) = map fst store"
proof (induction ws arbitrary: store)
  case Nil show ?case by simp
next
  case (Cons w ws)
  have k: "map fst (put (snd w) (fst w) store) = map fst store"
    using Cons.prems by (simp add: put_def update_keys) 
  have "fst ` set ws \<subseteq> fst ` set (put (snd w) (fst w) store)"
    using Cons.prems by (auto simp: put_def dom_update)
  from Cons.IH[OF this] k show ?case by simp
qed

lemma distinct_put_all: "distinct (map fst store) \<Longrightarrow> distinct (map fst (put_all ws store))"
  by (induction ws arbitrary: store) (simp_all add: put_def distinct_update)

lemma put_all_twice_keys: "map fst (put_all ws (put_all ws store)) = map fst (put_all ws store)"
  by (rule keys_put_all_present) (simp add: keys_put_all)

lemma put_all_twice_map_of: "map_of (put_all ws (put_all ws store)) = map_of (put_all ws store)"
  by (simp add: map_of_put_all map_add_def fun_eq_iff split: option.splits)

text \<open>
  Claim C8.  Importing a stream into the store that an import of the same stream has
  left gives a store with the same keys in the same order, hence as many entries, the
  same result of \<^verbatim>\<open>getImage\<close> for every key, and the same returned counts and
  lists.  The import has no exceptional result.
\<close>

theorem import_twice_same_store:
  "getAllKeys (idb (importBackup parse chunks (idb (importBackup parse chunks store))))
     = getAllKeys (idb (importBackup parse chunks store))
   \<and> (\<forall>k. getImage k (idb (importBackup parse chunks (idb (importBackup parse chunks store))))
          = getImage k (idb (importBackup parse chunks store)))
   \<and> length (idb (importBackup parse chunks (idb (importBackup parse chunks store))))
     = length (idb (importBackup parse chunks store))
   \<and> imageCount (importBackup parse chunks (idb (importBackup parse chunks store)))
     = imageCount (importBackup parse chunks store)
   \<and> restoredSentences (importBackup parse chunks (idb (importBackup parse chunks store)))
     = restoredSentences (importBackup parse chunks store)
   \<and> legacyImageIds (importBackup parse chunks (idb (importBackup parse chunks store)))
     = legacyImageIds (importBackup parse chunks store)"
proof -
  from importBackup_effect[of parse chunks] obtain ws ss ids where
    e: "\<And>s. importBackup parse chunks s =
        \<lparr>idb = put_all ws s, imageCount = length ws, restoredSentences = ss, legacyImageIds = ids\<rparr>"
    by blast
  have l: "length (put_all ws (put_all ws store)) = length (put_all ws store)"
    using put_all_twice_keys[of ws store] by (metis length_map)
  show ?thesis
    by (simp add: e getAllKeys_def put_all_twice_keys getImage_def store_get_def put_all_twice_map_of l)
qed

lemma truthy_not_nullish: "truthy (prop_of d p) \<Longrightarrow> \<not> nullish d"
  by (cases d) simp_all

lemma process_line_skip: "blank l \<or> parse l = None \<Longrightarrow> process_line parse l st = st"
  by (auto simp: process_line_def)

lemma process_leftover_skip: "blank l \<or> parse l = None \<Longrightarrow> process_leftover parse l st = st"
  by (auto simp: process_leftover_def)

lemma process_line_data:
  "\<not> blank l \<Longrightarrow> parse l = Some d \<Longrightarrow>
     process_line parse l st = (case dispatch_line d st of Inl e \<Rightarrow> st | Inr st' \<Rightarrow> st')"
  by (simp add: process_line_def)

lemma process_leftover_data:
  "\<not> blank l \<Longrightarrow> parse l = Some d \<Longrightarrow>
     process_leftover parse l st = (case dispatch_leftover d st of Inl e \<Rightarrow> st | Inr st' \<Rightarrow> st')"
  by (simp add: process_leftover_def)

lemma process_line_image:
  assumes "\<not> blank l" "parse l = Some d" "is_image_record d"
  shows "process_line parse l st = image_written d st"
  using assms truthy_not_nullish[of d "''id''"]
  by (simp add: process_line_data dispatch_line_cases is_image_record_def image_written_def)

lemma process_leftover_image:
  assumes "\<not> blank l" "parse l = Some d" "is_image_record d"
  shows "process_leftover parse l st = image_written d st"
  using assms truthy_not_nullish[of d "''id''"]
  by (simp add: process_leftover_data dispatch_leftover_cases is_image_record_def image_written_def)

lemma process_line_legacy:
  assumes "\<not> blank l" "parse l = Some d" "is_legacy_record d"
  shows "process_line parse l st =
     (image_written d st)\<lparr>legacyImageIds := legacyImageIds st @ [prop_of d ''id'']\<rparr>"
  using assms truthy_not_nullish[of d "''id''"]
  by (simp add: process_line_data dispatch_line_cases is_legacy_record_def image_written_def)

lemma process_leftover_legacy:
  assumes "\<not> blank l" "parse l = Some d" "is_legacy_record d"
  shows "process_leftover parse l st =
     (image_written d st)\<lparr>legacyImageIds := legacyImageIds st @ [prop_of d ''id'']\<rparr>"
  using assms truthy_not_nullish[of d "''id''"]
  by (simp add: process_leftover_data dispatch_leftover_cases is_legacy_record_def image_written_def)

lemma process_line_sentence:
  assumes "\<not> blank l" "parse l = Some d" "\<not> nullish d" "prop_of d ''type'' = JStr ''sentence''"
  shows "process_line parse l st =
     st\<lparr>restoredSentences := restoredSentences st @
        [\<lparr>sentence_id = prop_of d ''id'', english_text = prop_of d ''text'',
          imageUrl = JUndefined, status = Pending\<rparr>]\<rparr>"
  using assms by (simp add: process_line_data dispatch_line_cases)

lemma process_line_mistyped:
  assumes "\<not> blank l" "parse l = Some d" "mistyped_image d" "valid_key (prop_of d ''id'')"
  shows "process_line parse l st =
     (image_written d st)\<lparr>legacyImageIds := legacyImageIds st @ [prop_of d ''id'']\<rparr>"
  using assms truthy_not_nullish[of d "''id''"]
  by (simp add: process_line_data dispatch_line_cases mistyped_image_def image_written_def)

lemma process_leftover_mistyped:
  assumes "\<not> blank l" "parse l = Some d" "mistyped_image d" "valid_key (prop_of d ''id'')"
  shows "process_leftover parse l st = image_written d st"
  using assms truthy_not_nullish[of d "''id''"]
  by (simp add: process_leftover_data dispatch_leftover_cases mistyped_image_def image_written_def)

text \<open>The two dispatches agree except on a mistyped image record.\<close>

lemma dispatch_leftover_agrees:
  assumes "\<not> mistyped_image d"
  shows "(case dispatch_leftover d st of Inl e \<Rightarrow> st | Inr st' \<Rightarrow> st') =
         (case dispatch_line d st of Inl e \<Rightarrow> st | Inr st' \<Rightarrow> st')"
  using assms unfolding dispatch_leftover_cases dispatch_line_cases mistyped_image_def
  by auto

lemma process_leftover_agrees:
  assumes "\<And>d. parse l = Some d \<Longrightarrow> \<not> mistyped_image d"
  shows "process_leftover parse l st = process_line parse l st"
proof (cases "blank l \<or> parse l = None")
  case True
  then show ?thesis by (simp add: process_line_skip process_leftover_skip)
next
  case False
  then obtain d where d: "parse l = Some d" by auto
  with False assms[OF d] show ?thesis
    by (simp add: process_line_data process_leftover_data dispatch_leftover_agrees)
qed

lemma dispatch_leftover_agrees_upto_legacy:
  "(case dispatch_leftover d st of Inl e \<Rightarrow> st | Inr st' \<Rightarrow> st')\<lparr>legacyImageIds := x\<rparr> =
   (case dispatch_line d st of Inl e \<Rightarrow> st | Inr st' \<Rightarrow> st')\<lparr>legacyImageIds := x\<rparr>"
  unfolding dispatch_leftover_cases dispatch_line_cases by auto

lemma process_leftover_agrees_upto_legacy:
  "(process_leftover parse l st)\<lparr>legacyImageIds := x\<rparr> = (process_line parse l st)\<lparr>legacyImageIds := x\<rparr>"
proof (cases "blank l \<or> parse l = None")
  case True
  then show ?thesis by (simp add: process_line_skip process_leftover_skip)
next
  case False
  then obtain d where d: "parse l = Some d" by auto
  with False show ?thesis
    by (simp add: process_line_data process_leftover_data dispatch_leftover_agrees_upto_legacy)
qed

lemmas sample_line_defs =
  header_line_2_def header_line_1_def sentence_line_s1_def sentence_line_x1_def
  image_line_s1_def image_line_s2_def image_line_nokey_def legacy_line_x1_def
  mistyped_line_x1_def malformed_line_def

lemmas sample_value_defs =
  header_record_def sentence_record_def image_record_def sentence_s1_def sentence_x1_def
  image_s1_def image_s2_def image_nokey_def legacy_x1_def mistyped_x1_def sample_now_def

lemma sample_parse_simps:
  "sample_parse header_line_2 = Some (header_record sample_now 2)"
  "sample_parse header_line_1 = Some (header_record sample_now 1)"
  "sample_parse sentence_line_s1 = Some (sentence_record sentence_s1)"
  "sample_parse sentence_line_x1 = Some (sentence_record sentence_x1)"
  "sample_parse image_line_s1 = Some (image_record image_s1)"
  "sample_parse image_line_s2 = Some (image_record image_s2)"
  "sample_parse image_line_nokey = Some (image_record image_nokey)"
  "sample_parse legacy_line_x1 = Some legacy_x1"
  "sample_parse mistyped_line_x1 = Some mistyped_x1"
  "sample_parse malformed_line = None"
  by (simp_all add: sample_parse_def json_table_def sample_line_defs)

lemma sample_stringify_simps:
  "sample_stringify (header_record sample_now 2) = header_line_2"
  "sample_stringify (header_record sample_now 1) = header_line_1"
  "sample_stringify (sentence_record sentence_s1) = sentence_line_s1"
  "sample_stringify (sentence_record sentence_x1) = sentence_line_x1"
  "sample_stringify (image_record image_s1) = image_line_s1"
  "sample_stringify (image_record image_s2) = image_line_s2"
  "sample_stringify (image_record image_nokey) = image_line_nokey"
  by (simp_all add: sample_stringify_def json_table_def sample_value_defs)

lemma sample_lines_not_blank:
  "\<not> blank header_line_2" "\<not> blank header_line_1" "\<not> blank sentence_line_s1"
  "\<not> blank sentence_line_x1" "\<not> blank image_line_s1" "\<not> blank image_line_s2"
  "\<not> blank image_line_nokey" "\<not> blank legacy_line_x1" "\<not> blank mistyped_line_x1"
  "\<not> blank malformed_line"
  by (simp_all add: blank_def js_whitespace_def sample_line_defs)

lemma sample_lines_no_newline:
  "newline \<notin> set header_line_2" "newline \<notin> set header_line_1" "newline \<notin> set sentence_line_s1"
  "newline \<notin> set sentence_line_x1" "newline \<notin> set image_line_s1" "newline \<notin> set image_line_s2"
  "newline \<notin> set image_line_nokey" "newline \<notin> set legacy_line_x1" "newline \<notin> set mistyped_line_x1"
  "newline \<notin> set malformed_line"
  by (simp_all add: newline_def sample_line_defs)

lemma sample_shapes:
  "is_image_record (image_record image_s1)" "is_image_record (image_record image_s2)"
  "is_legacy_record legacy_x1" "mistyped_image mistyped_x1"
  by (simp_all add: is_image_record_def is_legacy_record_def mistyped_image_def sample_value_defs)

lemma importBackup_lines':
  assumes "concat chunks = unlines ls @ rest" "list_all (\<lambda>l. newline \<notin> set l) ls"
    "newline \<notin> set rest"
  shows "importBackup parse chunks store =
     process_leftover parse rest (fold (process_line parse) ls (initial_state store))"
  using importBackup_lines[OF assms] by (simp add: initial_state_def)

lemma blank_Nil: "blank []"
  by (simp add: blank_def)

lemma unlines_snoc: "unlines (ls @ [l]) = unlines ls @ l @ [newline]"
  by (simp add: unlines_def)

text \<open>
  Claim C7.  Take a stream in which a line that does not parse stands between two
  lines that parse to image records with an id and a payload that convert to true and
  a key the store accepts, whatever lines come before and after and however the reads
  cut the text.  The import is then the import of the lines before, followed by the
  write and the count of the first image, the write and the count of the second
  image, and the lines after: the malformed line changes nothing and stops nothing.
  The second part is the same stream ending, without a newline, in the second image
  record.  The function has no result other than its state: every exception raised
  for a line is caught in \<open>process_line\<close>.
\<close>

theorem malformed_line_skipped:
  assumes "list_all (\<lambda>l. newline \<notin> set l) (pre @ [l1, bad, l2])"
    and "parse bad = None"
    and "\<not> blank l1" "parse l1 = Some d1" "is_image_record d1"
    and "\<not> blank l2" "parse l2 = Some d2" "is_image_record d2"
  shows "(concat chunks = unlines (pre @ [l1, bad, l2] @ post) @ rest \<and>
          list_all (\<lambda>l. newline \<notin> set l) post \<and> newline \<notin> set rest \<longrightarrow>
          importBackup parse chunks store =
            process_leftover parse rest (fold (process_line parse) post
              (image_written d2 (image_written d1
                 (fold (process_line parse) pre (initial_state store))))))
       \<and> (concat chunks = unlines (pre @ [l1, bad]) @ l2 \<longrightarrow>
          importBackup parse chunks store =
            image_written d2 (image_written d1
               (fold (process_line parse) pre (initial_state store))))"
proof (intro conjI impI)
  assume a: "concat chunks = unlines (pre @ [l1, bad, l2] @ post) @ rest \<and>
          list_all (\<lambda>l. newline \<notin> set l) post \<and> newline \<notin> set rest"
  then have nl: "list_all (\<lambda>l. newline \<notin> set l) (pre @ [l1, bad, l2] @ post)"
    using assms(1) by simp
  from a have "importBackup parse chunks store =
     process_leftover parse rest
       (fold (process_line parse) (pre @ [l1, bad, l2] @ post) (initial_state store))"
    using importBackup_lines'[OF _ nl] by blast
  then show "importBackup parse chunks store =
            process_leftover parse rest (fold (process_line parse) post
              (image_written d2 (image_written d1
                 (fold (process_line parse) pre (initial_state store)))))"
    using assms(2-) by (simp add: process_line_image process_line_skip)
next
  assume a: "concat chunks = unlines (pre @ [l1, bad]) @ l2"
  have nl: "list_all (\<lambda>l. newline \<notin> set l) (pre @ [l1, bad])" "newline \<notin> set l2"
    using assms(1) by simp_all
  have "importBackup parse chunks store =
     process_leftover parse l2 (fold (process_line parse) (pre @ [l1, bad]) (initial_state store))"
    using importBackup_lines'[OF a nl] .
  then show "importBackup parse chunks store =
            image_written d2 (image_written d1
               (fold (process_line parse) pre (initial_state store)))"
    using assms(2-) by (simp add: process_line_image process_leftover_image process_line_skip)
qed

text \<open>The statement at two image lines around a truncated one, cut in the middle of
  the malformed line by the reads, and at the same text without the last newline.\<close>

theorem malformed_line_skipped_witness:
  "sample_parse malformed_line = None
   \<and> is_image_record (image_record image_s1) \<and> is_image_record (image_record image_s2)
   \<and> importBackup sample_parse
        [image_line_s1 @ [newline] @ take 9 malformed_line,
         drop 9 malformed_line @ [newline] @ image_line_s2 @ [newline]] []
      = \<lparr>idb = [image_s1, image_s2], imageCount = 2, restoredSentences = [], legacyImageIds = []\<rparr>
   \<and> importBackup sample_parse
        [image_line_s1 @ [newline] @ malformed_line @ [newline] @ image_line_s2] []
      = \<lparr>idb = [image_s1, image_s2], imageCount = 2, restoredSentences = [], legacyImageIds = []\<rparr>"
proof -
  let ?c1 = "[image_line_s1 @ [newline] @ take 9 malformed_line,
         drop 9 malformed_line @ [newline] @ image_line_s2 @ [newline]]"
  let ?c2 = "[image_line_s1 @ [newline] @ malformed_line @ [newline] @ image_line_s2]"
  have nl: "list_all (\<lambda>l. newline \<notin> set l) ([] @ [image_line_s1, malformed_line, image_line_s2])"
    by (simp add: sample_lines_no_newline)
  note T = malformed_line_skipped[OF nl sample_parse_simps(10)
      sample_lines_not_blank(5) sample_parse_simps(5) sample_shapes(1)
      sample_lines_not_blank(6) sample_parse_simps(6) sample_shapes(2)]
  have c1: "concat ?c1 = unlines ([] @ [image_line_s1, malformed_line, image_line_s2] @ []) @ []"
    by (simp add: unlines_def)
  have c2: "concat ?c2 = unlines ([] @ [image_line_s1, malformed_line]) @ image_line_s2"
    by (simp add: unlines_def)
  have r: "image_written (image_record image_s2) (image_written (image_record image_s1)
             (initial_state [])) =
      \<lparr>idb = [image_s1, image_s2], imageCount = 2, restoredSentences = [], legacyImageIds = []\<rparr>"
    by (simp add: image_written_def initial_state_def image_record_def image_s1_def image_s2_def put_def)
  have 1: "importBackup sample_parse ?c1 [] =
      \<lparr>idb = [image_s1, image_s2], imageCount = 2, restoredSentences = [], legacyImageIds = []\<rparr>"
    using T[of ?c1 "[]" "[]" "[]", THEN conjunct1] c1
    by (simp add: r process_leftover_skip blank_Nil del: append.simps concat.simps)
  have 2: "importBackup sample_parse ?c2 [] =
      \<lparr>idb = [image_s1, image_s2], imageCount = 2, restoredSentences = [], legacyImageIds = []\<rparr>"
    using T[of ?c2 "[]" "[]" "[]", THEN conjunct2] c2
    by (simp add: r del: append.simps concat.simps)
  show ?thesis
    using 1 2 sample_parse_simps(10) sample_shapes(1,2) by blast
qed

lemma store_get_put: "store_get k (put v k store) = v"
  by (simp add: store_get_def put_def update_conv')

text \<open>
  What the two copies of the dispatch share.  Compare a file whose last line \<open>rest\<close>
  has no newline after it with the same file with that newline added.  The import
  leaves the same store, the same image count and the same restored sentences; the
  whole result is the same unless the last line parses to a record whose type converts
  to true, is neither \<open>sentence\<close> nor \<open>image\<close>, and which carries an id and a
  payload.  When the last line is an image record or a legacy record, its image is in
  the store afterwards and has been counted.
\<close>

lemma unterminated_final_record:
  assumes "concat chunks = unlines ls @ rest"
    and "concat chunks' = unlines (ls @ [rest])"
    and "list_all (\<lambda>l. newline \<notin> set l) ls" and "newline \<notin> set rest"
  shows "idb (importBackup parse chunks store) = idb (importBackup parse chunks' store)
     \<and> imageCount (importBackup parse chunks store) = imageCount (importBackup parse chunks' store)
     \<and> restoredSentences (importBackup parse chunks store) =
         restoredSentences (importBackup parse chunks' store)
     \<and> ((\<forall>d. parse rest = Some d \<longrightarrow> \<not> mistyped_image d) \<longrightarrow>
          importBackup parse chunks store = importBackup parse chunks' store)
     \<and> (\<forall>d. \<not> blank rest \<and> parse rest = Some d \<and> (is_image_record d \<or> is_legacy_record d) \<longrightarrow>
          imageCount (importBackup parse chunks store) =
            imageCount (importBackup parse [unlines ls] store) + 1
          \<and> store_get (prop_of d ''id'') (idb (importBackup parse chunks store)) = prop_of d ''base64'')"
proof -
  let ?st = "fold (process_line parse) ls (initial_state store)"
  have nl': "list_all (\<lambda>l. newline \<notin> set l) (ls @ [rest])" using assms(3,4) by simp
  have r: "importBackup parse chunks store = process_leftover parse rest ?st"
    by (rule importBackup_lines'[OF assms(1,3,4)])
  have "importBackup parse chunks' store =
      process_leftover parse [] (fold (process_line parse) (ls @ [rest]) (initial_state store))"
    using importBackup_lines'[of chunks' "ls @ [rest]" "[]" parse store] assms(2) nl' by simp
  then have r': "importBackup parse chunks' store = process_line parse rest ?st"
    by (simp add: process_leftover_skip blank_Nil)
  have r0: "importBackup parse [unlines ls] store = ?st"
    using importBackup_lines'[of "[unlines ls]" ls "[]" parse store] assms(3)
    by (simp add: process_leftover_skip blank_Nil)
  have u: "(process_leftover parse rest ?st)\<lparr>legacyImageIds := []\<rparr> =
           (process_line parse rest ?st)\<lparr>legacyImageIds := []\<rparr>"
    by (rule process_leftover_agrees_upto_legacy)
  have 1: "idb (importBackup parse chunks store) = idb (importBackup parse chunks' store)"
    using arg_cong[OF u, of idb] by (simp add: r r')
  have 2: "imageCount (importBackup parse chunks store) = imageCount (importBackup parse chunks' store)"
    using arg_cong[OF u, of imageCount] by (simp add: r r')
  have 3: "restoredSentences (importBackup parse chunks store) =
         restoredSentences (importBackup parse chunks' store)"
    using arg_cong[OF u, of restoredSentences] by (simp add: r r')
  have 4: "importBackup parse chunks store = importBackup parse chunks' store"
    if "\<forall>d. parse rest = Some d \<longrightarrow> \<not> mistyped_image d"
    using that by (simp add: r r' process_leftover_agrees)
  have 5: "imageCount (importBackup parse chunks store) =
            imageCount (importBackup parse [unlines ls] store) + 1
          \<and> store_get (prop_of d ''id'') (idb (importBackup parse chunks store)) = prop_of d ''base64''"
    if "\<not> blank rest \<and> parse rest = Some d \<and> (is_image_record d \<or> is_legacy_record d)" for d
  proof -
    from that have "process_leftover parse rest ?st = image_written d ?st \<or>
        process_leftover parse rest ?st =
          (image_written d ?st)\<lparr>legacyImageIds := legacyImageIds ?st @ [prop_of d ''id'']\<rparr>"
      using process_leftover_image[of rest parse d ?st] process_leftover_legacy[of rest parse d ?st]
      by blast
    then show ?thesis
      by (auto simp: r r0 image_written_def store_get_put)
  qed
  from 1 2 3 4 5 show ?thesis by blast
qed

text \<open>
  Claim C6 at a failing input.  The file has two lines, an image record and a record
  with the type \<open>thumbnail\<close>, an id and a payload.  When the second line has no
  newline after it, it is dispatched after the loop, by a copy of the rules that
  records no legacy id for it; with the newline it is dispatched in the loop, which
  records the id.  The tail is not dispatched by the rules of a complete line.
\<close>

theorem unterminated_record_dispatched_differently:
  "importBackup sample_parse [image_line_s1 @ [newline] @ mistyped_line_x1] [] =
     \<lparr>idb = [(JStr ''s1'', JStr ''data:image/png;base64,AAAA''),
             (JStr ''x1'', JStr ''data:image/png;base64,CCCC'')],
      imageCount = 2, restoredSentences = [], legacyImageIds = []\<rparr>
   \<and> importBackup sample_parse [image_line_s1 @ [newline] @ mistyped_line_x1 @ [newline]] [] =
     \<lparr>idb = [(JStr ''s1'', JStr ''data:image/png;base64,AAAA''),
             (JStr ''x1'', JStr ''data:image/png;base64,CCCC'')],
      imageCount = 2, restoredSentences = [], legacyImageIds = [JStr ''x1'']\<rparr>"
proof -
  have v: "valid_key (prop_of mistyped_x1 ''id'')" by (simp add: mistyped_x1_def)
  have 1: "importBackup sample_parse [image_line_s1 @ [newline] @ mistyped_line_x1] [] =
      process_leftover sample_parse mistyped_line_x1
        (fold (process_line sample_parse) [image_line_s1] (initial_state []))"
    by (rule importBackup_lines') (simp_all add: unlines_def sample_lines_no_newline)
  have 2: "importBackup sample_parse [image_line_s1 @ [newline] @ mistyped_line_x1 @ [newline]] [] =
      process_leftover sample_parse []
        (fold (process_line sample_parse) [image_line_s1, mistyped_line_x1] (initial_state []))"
    by (rule importBackup_lines') (simp_all add: unlines_def sample_lines_no_newline)
  show ?thesis
    unfolding 1 2
    by (simp add: process_leftover_skip blank_Nil
        process_line_image[of image_line_s1 sample_parse "image_record image_s1", OF sample_lines_not_blank(5) sample_parse_simps(5) sample_shapes(1)]
        process_line_mistyped[of mistyped_line_x1 sample_parse mistyped_x1, OF sample_lines_not_blank(9) sample_parse_simps(9) sample_shapes(4) v]
        process_leftover_mistyped[of mistyped_line_x1 sample_parse mistyped_x1, OF sample_lines_not_blank(9) sample_parse_simps(9) sample_shapes(4) v]
        image_written_def initial_state_def mistyped_x1_def image_record_def image_s1_def put_def)
qed

text \<open>
  Claim C3 at a failing input.  A line whose record has the type \<open>thumbnail\<close>, an id
  and a payload is not ignored: as a complete line it is written to the store, counted
  and recorded as a legacy id; as the unterminated last line it is written and
  counted.
\<close>

theorem mistyped_record_is_imported:
  "importBackup sample_parse [mistyped_line_x1 @ [newline]] [] =
     \<lparr>idb = [(JStr ''x1'', JStr ''data:image/png;base64,CCCC'')], imageCount = 1,
      restoredSentences = [], legacyImageIds = [JStr ''x1'']\<rparr>
   \<and> importBackup sample_parse [mistyped_line_x1] [] =
     \<lparr>idb = [(JStr ''x1'', JStr ''data:image/png;base64,CCCC'')], imageCount = 1,
      restoredSentences = [], legacyImageIds = []\<rparr>"
proof -
  have v: "valid_key (prop_of mistyped_x1 ''id'')" by (simp add: mistyped_x1_def)
  have 1: "importBackup sample_parse [mistyped_line_x1 @ [newline]] [] =
      process_leftover sample_parse [] (fold (process_line sample_parse) [mistyped_line_x1] (initial_state []))"
    by (rule importBackup_lines') (simp_all add: unlines_def sample_lines_no_newline)
  have 2: "importBackup sample_parse [mistyped_line_x1] [] =
      process_leftover sample_parse mistyped_line_x1 (fold (process_line sample_parse) [] (initial_state []))"
    by (rule importBackup_lines') (simp_all add: unlines_def sample_lines_no_newline)
  show ?thesis
    unfolding 1 2
    by (simp add: process_leftover_skip blank_Nil
        process_line_mistyped[of mistyped_line_x1 sample_parse mistyped_x1, OF sample_lines_not_blank(9) sample_parse_simps(9) sample_shapes(4) v]
        process_leftover_mistyped[of mistyped_line_x1 sample_parse mistyped_x1, OF sample_lines_not_blank(9) sample_parse_simps(9) sample_shapes(4) v]
        image_written_def initial_state_def mistyped_x1_def put_def)
qed

section \<open>Properties of the reconciliation\<close>

lemma map_has_key: "map_has k m \<Longrightarrow> k \<in> fst ` set m"
  by (auto simp: map_has_def list_ex_iff same_value_zero_def)

lemma map_set_cases: "e \<in> set (map_set k v m) \<Longrightarrow> e = (k, v) \<or> e \<in> set m"
  by (induction m) (auto simp: same_value_zero_def split: if_splits)

lemma map_set_keys: "fst ` set (map_set k v m) = insert k (fst ` set m)"
  by (induction m) (auto simp: same_value_zero_def)

lemma map_set_keeps_other: "e \<in> set m \<Longrightarrow> fst e \<noteq> k \<Longrightarrow> e \<in> set (map_set k v m)"
  by (induction m) (auto simp: same_value_zero_def)

lemma keyed_map_set: "keyed m \<Longrightarrow> sentence_id v = k \<Longrightarrow> keyed (map_set k v m)"
  unfolding keyed_def using map_set_cases by fastforce

lemma fold_sentences:
  "keyed m \<Longrightarrow>
   keyed (fold (\<lambda>s. map_set (sentence_id s) s) ss m) \<and>
   fst ` set (fold (\<lambda>s. map_set (sentence_id s) s) ss m) = fst ` set m \<union> sentence_id ` set ss"
proof (induction ss arbitrary: m)
  case Nil then show ?case by simp
next
  case (Cons s ss)
  have k: "keyed (map_set (sentence_id s) s m)" using Cons.prems by (simp add: keyed_map_set)
  from Cons.IH[OF k] show ?case by (auto simp: map_set_keys)
qed

lemma sentence_id_placeholder [simp]: "sentence_id (placeholder i) = i"
  by (simp add: placeholder_def)

lemma legacy_step_props:
  assumes "keyed m" "\<forall>e \<in> set m. fst e = i \<longrightarrow> snd e = placeholder i"
  shows "keyed (legacy_step j m)"
    and "\<forall>e \<in> set (legacy_step j m). fst e = i \<longrightarrow> snd e = placeholder i"
    and "fst ` set m \<subseteq> fst ` set (legacy_step j m)"
    and "j \<in> fst ` set (legacy_step j m)"
proof -
  show "keyed (legacy_step j m)"
    using assms(1) by (simp add: legacy_step_def keyed_map_set)
  show "\<forall>e \<in> set (legacy_step j m). fst e = i \<longrightarrow> snd e = placeholder i"
  proof (intro ballI impI)
    fix e assume e: "e \<in> set (legacy_step j m)" "fst e = i"
    then have "e \<in> set m \<or> e = (j, placeholder j)"
      using map_set_cases[of e j "placeholder j" m] by (auto simp: legacy_step_def split: if_splits)
    then show "snd e = placeholder i"
    proof
      assume "e \<in> set m" with assms(2) e(2) show ?thesis by blast
    next
      assume "e = (j, placeholder j)" with e(2) show ?thesis by simp
    qed
  qed
  show "fst ` set m \<subseteq> fst ` set (legacy_step j m)"
    by (auto simp: legacy_step_def map_set_keys)
  show "j \<in> fst ` set (legacy_step j m)"
    using map_has_key[of j m] by (auto simp: legacy_step_def map_set_keys)
qed

lemma fold_legacy:
  assumes "keyed m" "\<forall>e \<in> set m. fst e = i \<longrightarrow> snd e = placeholder i"
  shows "keyed (fold legacy_step ids m)
     \<and> (\<forall>e \<in> set (fold legacy_step ids m). fst e = i \<longrightarrow> snd e = placeholder i)
     \<and> fst ` set m \<subseteq> fst ` set (fold legacy_step ids m)
     \<and> set ids \<subseteq> fst ` set (fold legacy_step ids m)"
  using assms
proof (induction ids arbitrary: m)
  case Nil then show ?case by simp
next
  case (Cons j ids)
  note P = legacy_step_props[OF Cons.prems, of j]
  note IH = Cons.IH[OF P(1) P(2)]
  note IH1 = IH[THEN conjunct1]
  note IH2 = IH[THEN conjunct2, THEN conjunct1]
  note IH3 = IH[THEN conjunct2, THEN conjunct2, THEN conjunct1]
  note IH4 = IH[THEN conjunct2, THEN conjunct2, THEN conjunct2]
  have a: "fst ` set m \<subseteq> fst ` set (fold legacy_step ids (legacy_step j m))"
    using P(3) IH3 by (rule subset_trans)
  have b: "j \<in> fst ` set (fold legacy_step ids (legacy_step j m))"
    using P(4) IH3 by (rule_tac subsetD)
  have c: "set (j # ids) \<subseteq> fst ` set (fold legacy_step ids (legacy_step j m))"
    using b IH4 by simp
  show ?case
    unfolding fold_simps by (intro conjI IH1 IH2 a c)
qed

lemma reconcile_eq:
  "reconcile prev restored legacy =
     map snd (fold legacy_step legacy
       (fold (\<lambda>s. map_set (sentence_id s) s) restored
          (fold (\<lambda>s. map_set (sentence_id s) s) prev [])))"
  by (simp add: reconcile_def Let_def legacy_step_def[abs_def])

lemma reconcile_placeholder:
  assumes "i \<in> set legacy" "i \<notin> sentence_id ` set prev" "i \<notin> sentence_id ` set restored"
  shows "placeholder i \<in> set (reconcile prev restored legacy)"
    and "\<forall>s \<in> set (reconcile prev restored legacy). sentence_id s = i \<longrightarrow> s = placeholder i"
proof -
  let ?m1 = "fold (\<lambda>s. map_set (sentence_id s) s) prev []"
  let ?m2 = "fold (\<lambda>s. map_set (sentence_id s) s) restored ?m1"
  let ?m3 = "fold legacy_step legacy ?m2"
  have k0: "keyed []" by (simp add: keyed_def)
  note 1 = fold_sentences[OF k0, of prev]
  note 2 = fold_sentences[OF 1[THEN conjunct1], of restored]
  have keys2: "fst ` set ?m2 = sentence_id ` set prev \<union> sentence_id ` set restored"
    using 1 2 by simp
  have none: "\<forall>e \<in> set ?m2. fst e = i \<longrightarrow> snd e = placeholder i"
  proof (intro ballI impI)
    fix e assume "e \<in> set ?m2" "fst e = i"
    then have "i \<in> fst ` set ?m2" by (rule_tac image_eqI[of _ _ e]) simp_all
    with keys2 assms(2,3) show "snd e = placeholder i" by simp
  qed
  note 3 = fold_legacy[OF 2[THEN conjunct1] none, of legacy]
  from 3 assms(1) obtain e where e: "e \<in> set ?m3" "fst e = i" by auto
  with 3 have "snd e = placeholder i" by blast
  with e have "placeholder i \<in> snd ` set ?m3" by (rule_tac image_eqI[of _ _ e]) simp_all
  then show "placeholder i \<in> set (reconcile prev restored legacy)"
    unfolding reconcile_eq by simp
  show "\<forall>s \<in> set (reconcile prev restored legacy). sentence_id s = i \<longrightarrow> s = placeholder i"
  proof (intro ballI impI)
    fix s assume "s \<in> set (reconcile prev restored legacy)" "sentence_id s = i"
    then obtain e where e: "e \<in> set ?m3" "snd e = s" unfolding reconcile_eq by auto
    with 3 have "fst e = sentence_id s" by (auto simp: keyed_def)
    with e 3 \<open>sentence_id s = i\<close> show "s = placeholder i" by blast
  qed
qed

lemma has_effect_grows:
  assumes "has_effect f ws ss ids"
  shows "set (legacyImageIds st) \<subseteq> set (legacyImageIds (f st))"
    and "fst ` set (idb st) \<subseteq> fst ` set (idb (f st))"
  using assms by (auto simp: has_effect_def keys_put_all)

lemma process_line_grows:
  "set (legacyImageIds st) \<subseteq> set (legacyImageIds (process_line parse l st))"
  "fst ` set (idb st) \<subseteq> fst ` set (idb (process_line parse l st))"
proof -
  from process_line_effect[of parse l] obtain ws ss ids where
    e: "has_effect (process_line parse l) ws ss ids" by blast
  show "set (legacyImageIds st) \<subseteq> set (legacyImageIds (process_line parse l st))"
    by (rule has_effect_grows(1)[OF e])
  show "fst ` set (idb st) \<subseteq> fst ` set (idb (process_line parse l st))"
    by (rule has_effect_grows(2)[OF e])
qed

lemma process_leftover_grows:
  "set (legacyImageIds st) \<subseteq> set (legacyImageIds (process_leftover parse l st))"
  "fst ` set (idb st) \<subseteq> fst ` set (idb (process_leftover parse l st))"
proof -
  from process_leftover_effect[of parse l] obtain ws ss ids where
    e: "has_effect (process_leftover parse l) ws ss ids" by blast
  show "set (legacyImageIds st) \<subseteq> set (legacyImageIds (process_leftover parse l st))"
    by (rule has_effect_grows(1)[OF e])
  show "fst ` set (idb st) \<subseteq> fst ` set (idb (process_leftover parse l st))"
    by (rule has_effect_grows(2)[OF e])
qed

lemma fold_process_line_grows:
  "set (legacyImageIds st) \<subseteq> set (legacyImageIds (fold (process_line parse) ls st))"
  "fst ` set (idb st) \<subseteq> fst ` set (idb (fold (process_line parse) ls st))"
proof -
  from fold_process_line_effect[of parse ls] obtain ws ss ids where
    e: "has_effect (fold (process_line parse) ls) ws ss ids" by blast
  show "set (legacyImageIds st) \<subseteq> set (legacyImageIds (fold (process_line parse) ls st))"
    by (rule has_effect_grows(1)[OF e])
  show "fst ` set (idb st) \<subseteq> fst ` set (idb (fold (process_line parse) ls st))"
    by (rule has_effect_grows(2)[OF e])
qed

lemma legacy_recorded:
  assumes "\<not> blank l" "parse l = Some d" "is_legacy_record d"
  shows "prop_of d ''id'' \<in> set (legacyImageIds (process_line parse l st))"
    and "prop_of d ''id'' \<in> fst ` set (idb (process_line parse l st))"
    and "prop_of d ''id'' \<in> set (legacyImageIds (process_leftover parse l st))"
    and "prop_of d ''id'' \<in> fst ` set (idb (process_leftover parse l st))"
  by (simp_all add: process_line_legacy[of l parse d, OF assms] process_leftover_legacy[of l parse d, OF assms]
      image_written_def put_def dom_update)

lemma legacy_line_in_result:
  assumes "l \<in> set (split_nl (concat chunks))" "\<not> blank l" "parse l = Some d" "is_legacy_record d"
  shows "prop_of d ''id'' \<in> set (legacyImageIds (importBackup parse chunks store))"
    and "prop_of d ''id'' \<in> fst ` set (idb (importBackup parse chunks store))"
proof -
  let ?L = "split_nl (concat chunks)"
  let ?i = "prop_of d ''id''"
  let ?s0 = "\<lparr>idb = store, imageCount = 0, restoredSentences = [], legacyImageIds = []\<rparr>"
  have L: "x \<in> set (butlast xs) \<or> x = last xs" if "x \<in> set xs" for x :: string and xs
    using that by (induction xs) (auto split: if_splits)
  have r: "importBackup parse chunks store =
      process_leftover parse (last ?L) (fold (process_line parse) (butlast ?L) ?s0)"
    by (rule importBackup_eq)
  from assms(1) have "l \<in> set (butlast ?L) \<or> l = last ?L"
    by (rule L)
  then have "?i \<in> set (legacyImageIds (importBackup parse chunks store)) \<and>
      ?i \<in> fst ` set (idb (importBackup parse chunks store))"
  proof
    assume "l \<in> set (butlast ?L)"
    then obtain pre post where sp: "butlast ?L = pre @ l # post" by (meson split_list)
    define s1 where "s1 = process_line parse l (fold (process_line parse) pre ?s0)"
    define s2 where "s2 = fold (process_line parse) post s1"
    have e: "importBackup parse chunks store = process_leftover parse (last ?L) s2"
      by (simp add: r sp s1_def s2_def)
    have a1: "?i \<in> set (legacyImageIds s1)"
      unfolding s1_def by (rule legacy_recorded(1)[of l parse d, OF assms(2-4)])
    have b1: "?i \<in> fst ` set (idb s1)"
      unfolding s1_def by (rule legacy_recorded(2)[of l parse d, OF assms(2-4)])
    have a2: "?i \<in> set (legacyImageIds s2)"
      unfolding s2_def by (rule subsetD[OF fold_process_line_grows(1) a1])
    have b2: "?i \<in> fst ` set (idb s2)"
      unfolding s2_def by (rule subsetD[OF fold_process_line_grows(2) b1])
    have a3: "?i \<in> set (legacyImageIds (process_leftover parse (last ?L) s2))"
      by (rule subsetD[OF process_leftover_grows(1) a2])
    have b3: "?i \<in> fst ` set (idb (process_leftover parse (last ?L) s2))"
      by (rule subsetD[OF process_leftover_grows(2) b2])
    show ?thesis unfolding e using a3 b3 by (rule conjI)
  next
    assume "l = last ?L"
    then show ?thesis
      unfolding r using legacy_recorded(3,4)[of l parse d, OF assms(2-4)] by simp
  qed
  then show "?i \<in> set (legacyImageIds (importBackup parse chunks store))"
    and "?i \<in> fst ` set (idb (importBackup parse chunks store))" by simp_all
qed

text \<open>
  Claim C4, as the code has it.  Let a line of the stream, complete or last, be a
  record without \<^verbatim>\<open>type\<close> whose id and payload convert to true and whose id the
  store accepts, and let that id be the id of no sentence of the current list and of
  no sentence restored from the same stream.  Then the store returned holds the id
  among its keys, the id is among the legacy image ids that the import returns, and
  the reconciled list holds the sentence with that id, the text
  \<open>(Restored Image - No Text Available)\<close>, the status \<open>completed\<close> and no image
  URL, and holds no other sentence with that id.
\<close>

theorem legacy_record_reconciled:
  assumes "l \<in> set (split_nl (concat chunks))" "\<not> blank l" "parse l = Some d"
    and "is_legacy_record d"
    and "prop_of d ''id'' \<notin> sentence_id ` set prev"
    and "prop_of d ''id'' \<notin> sentence_id ` set (restoredSentences (importBackup parse chunks store))"
  shows "prop_of d ''id'' \<in> set (getAllKeys (fst (handleBackupImport parse chunks store prev)))
     \<and> fst (handleBackupImport parse chunks store prev) = idb (importBackup parse chunks store)
     \<and> prop_of d ''id'' \<in> set (legacyImageIds (importBackup parse chunks store))
     \<and> \<lparr>sentence_id = prop_of d ''id'',
         english_text = JStr ''(Restored Image - No Text Available)'',
         imageUrl = JUndefined, status = Completed\<rparr>
        \<in> set (snd (handleBackupImport parse chunks store prev))
     \<and> (\<forall>s \<in> set (snd (handleBackupImport parse chunks store prev)).
          sentence_id s = prop_of d ''id'' \<longrightarrow>
          s = \<lparr>sentence_id = prop_of d ''id'',
                english_text = JStr ''(Restored Image - No Text Available)'',
                imageUrl = JUndefined, status = Completed\<rparr>)"
proof -
  let ?r = "importBackup parse chunks store"
  let ?i = "prop_of d ''id''"
  note in_res = legacy_line_in_result[of l chunks parse d store, OF assms(1-4)]
  note ph = reconcile_placeholder[OF in_res(1) assms(5,6)]
  have h: "handleBackupImport parse chunks store prev =
      (idb ?r, reconcile prev (restoredSentences ?r) (legacyImageIds ?r))"
    by (simp add: handleBackupImport_def Let_def)
  have 1: "?i \<in> set (getAllKeys (idb ?r))"
    using in_res(2) by (simp add: getAllKeys_def)
  show ?thesis
    unfolding h fst_conv snd_conv
    by (intro conjI 1 refl in_res(1) ph[unfolded placeholder_def])
qed

lemma import_sentence_then_legacy:
  assumes "\<not> blank ls" "parse ls = Some ds" "\<not> nullish ds" "prop_of ds ''type'' = JStr ''sentence''"
    and "\<not> blank ll" "parse ll = Some dl" "is_legacy_record dl"
    and "newline \<notin> set ls" "newline \<notin> set ll"
  shows "importBackup parse [ls @ [newline] @ ll @ [newline]] store =
     \<lparr>idb = put (prop_of dl ''base64'') (prop_of dl ''id'') store, imageCount = 1,
      restoredSentences = [\<lparr>sentence_id = prop_of ds ''id'', english_text = prop_of ds ''text'',
          imageUrl = JUndefined, status = Pending\<rparr>],
      legacyImageIds = [prop_of dl ''id'']\<rparr>"
proof -
  have "importBackup parse [ls @ [newline] @ ll @ [newline]] store =
      process_leftover parse [] (fold (process_line parse) [ls, ll] (initial_state store))"
    using assms(8,9) by (intro importBackup_lines') (simp_all add: unlines_def)
  then show ?thesis
    using process_line_sentence[of ls parse ds, OF assms(1-4)]
      process_line_legacy[of ll parse dl, OF assms(5-7)]
    by (simp add: process_leftover_skip blank_Nil image_written_def initial_state_def)
qed

lemma sample_sentence_props:
  "\<not> nullish (sentence_record s)" "prop_of (sentence_record s) ''type'' = JStr ''sentence''"
  "prop_of (sentence_record s) ''id'' = sentence_id s"
  "prop_of (sentence_record s) ''text'' = english_text s"
  by (simp_all add: sentence_record_def)

lemma legacy_x1_props:
  "prop_of legacy_x1 ''id'' = JStr ''x1''"
  "prop_of legacy_x1 ''base64'' = JStr ''data:image/png;base64,CCCC''"
  by (simp_all add: legacy_x1_def)

lemma sample_import_s1_x1:
  "importBackup sample_parse [sentence_line_s1 @ [newline] @ legacy_line_x1 @ [newline]] [] =
     \<lparr>idb = [(JStr ''x1'', JStr ''data:image/png;base64,CCCC'')], imageCount = 1,
      restoredSentences = [sentence_s1], legacyImageIds = [JStr ''x1'']\<rparr>"
  using import_sentence_then_legacy[of sentence_line_s1 sample_parse "sentence_record sentence_s1"
      legacy_line_x1 legacy_x1 "[]",
      OF sample_lines_not_blank(3) sample_parse_simps(3) sample_sentence_props(1,2)
         sample_lines_not_blank(8) sample_parse_simps(8) sample_shapes(3)
         sample_lines_no_newline(3) sample_lines_no_newline(8)]
  by (simp add: sample_sentence_props legacy_x1_props put_def sentence_s1_def)

lemma sample_import_x1_x1:
  "importBackup sample_parse [sentence_line_x1 @ [newline] @ legacy_line_x1 @ [newline]] [] =
     \<lparr>idb = [(JStr ''x1'', JStr ''data:image/png;base64,CCCC'')], imageCount = 1,
      restoredSentences = [sentence_x1], legacyImageIds = [JStr ''x1'']\<rparr>"
  using import_sentence_then_legacy[of sentence_line_x1 sample_parse "sentence_record sentence_x1"
      legacy_line_x1 legacy_x1 "[]",
      OF sample_lines_not_blank(4) sample_parse_simps(4) sample_sentence_props(1,2)
         sample_lines_not_blank(8) sample_parse_simps(8) sample_shapes(3)
         sample_lines_no_newline(4) sample_lines_no_newline(8)]
  by (simp add: sample_sentence_props legacy_x1_props put_def sentence_x1_def)

lemma legacy_line_in_stream:
  "newline \<notin> set ls \<Longrightarrow> newline \<notin> set ll \<Longrightarrow>
     ll \<in> set (split_nl (concat [ls @ [newline] @ ll @ [newline]]))"
  using split_nl_unlines[of "[ls, ll]" "[]"] by (simp add: unlines_def)

text \<open>The statement at a stream with a sentence \<open>s1\<close> and a legacy record \<open>x1\<close>,
  the current list holding the sentence \<open>s1\<close>.\<close>

theorem legacy_record_reconciled_witness:
  "legacy_line_x1 \<in> set (split_nl (concat [sentence_line_s1 @ [newline] @ legacy_line_x1 @ [newline]]))
   \<and> sample_parse legacy_line_x1 = Some legacy_x1 \<and> is_legacy_record legacy_x1
   \<and> prop_of legacy_x1 ''id'' = JStr ''x1''
   \<and> JStr ''x1'' \<notin> sentence_id ` set [sentence_s1]
   \<and> JStr ''x1'' \<in> set (getAllKeys (fst (handleBackupImport sample_parse
          [sentence_line_s1 @ [newline] @ legacy_line_x1 @ [newline]] [] [sentence_s1])))
   \<and> JStr ''x1'' \<in> set (legacyImageIds (importBackup sample_parse
          [sentence_line_s1 @ [newline] @ legacy_line_x1 @ [newline]] []))
   \<and> \<lparr>sentence_id = JStr ''x1'', english_text = JStr ''(Restored Image - No Text Available)'',
         imageUrl = JUndefined, status = Completed\<rparr>
        \<in> set (snd (handleBackupImport sample_parse
          [sentence_line_s1 @ [newline] @ legacy_line_x1 @ [newline]] [] [sentence_s1]))"
proof -
  let ?c = "[sentence_line_s1 @ [newline] @ legacy_line_x1 @ [newline]]"
  have 1: "legacy_line_x1 \<in> set (split_nl (concat ?c))"
    by (rule legacy_line_in_stream[OF sample_lines_no_newline(3) sample_lines_no_newline(8)])
  have 5: "prop_of legacy_x1 ''id'' \<notin> sentence_id ` set [sentence_s1]"
    by (simp add: legacy_x1_props sentence_s1_def)
  have 6: "prop_of legacy_x1 ''id'' \<notin>
      sentence_id ` set (restoredSentences (importBackup sample_parse ?c []))"
    using sample_import_s1_x1 by (simp add: legacy_x1_props sentence_s1_def)
  note T = legacy_record_reconciled[of legacy_line_x1 ?c sample_parse legacy_x1 "[sentence_s1]" "[]",
      OF 1 sample_lines_not_blank(8) sample_parse_simps(8) sample_shapes(3) 5 6,
      unfolded legacy_x1_props]
  have n5: "JStr ''x1'' \<notin> sentence_id ` set [sentence_s1]"
    by (simp add: sentence_s1_def)
  show ?thesis
    by (intro conjI 1 sample_parse_simps(8) sample_shapes(3) legacy_x1_props(1) n5
        T[THEN conjunct1] T[THEN conjunct2, THEN conjunct2, THEN conjunct1]
        T[THEN conjunct2, THEN conjunct2, THEN conjunct2, THEN conjunct1])
qed

text \<open>Claim C4 as it is written fails when the same stream restores a sentence with
  the id of the legacy record: the current list is empty, so the id is not in it, and
  the reconciled list holds the restored sentence, pending and with its own text, and
  no placeholder.\<close>

theorem legacy_record_restored_sentence_counterexample:
  "legacy_line_x1 \<in> set (split_nl (concat [sentence_line_x1 @ [newline] @ legacy_line_x1 @ [newline]]))
   \<and> sample_parse legacy_line_x1 = Some legacy_x1
   \<and> prop_of legacy_x1 ''type'' = JUndefined
   \<and> prop_of legacy_x1 ''id'' = JStr ''x1''
   \<and> prop_of legacy_x1 ''base64'' = JStr ''data:image/png;base64,CCCC''
   \<and> JStr ''x1'' \<notin> sentence_id ` set ([] :: EnglishSentence list)
   \<and> handleBackupImport sample_parse
         [sentence_line_x1 @ [newline] @ legacy_line_x1 @ [newline]] [] []
       = ([(JStr ''x1'', JStr ''data:image/png;base64,CCCC'')],
          [\<lparr>sentence_id = JStr ''x1'', english_text = JStr ''A dog ran.'',
            imageUrl = JUndefined, status = Pending\<rparr>])"
proof -
  let ?c = "[sentence_line_x1 @ [newline] @ legacy_line_x1 @ [newline]]"
  have 1: "legacy_line_x1 \<in> set (split_nl (concat ?c))"
    by (rule legacy_line_in_stream[OF sample_lines_no_newline(4) sample_lines_no_newline(8)])
  have t: "prop_of legacy_x1 ''type'' = JUndefined" by (simp add: legacy_x1_def)
  have r: "reconcile [] [sentence_x1] [JStr ''x1''] = [sentence_x1]"
    by (simp add: reconcile_def map_has_def same_value_zero_def sentence_x1_def)
  have h: "handleBackupImport sample_parse ?c [] [] =
       ([(JStr ''x1'', JStr ''data:image/png;base64,CCCC'')],
          [\<lparr>sentence_id = JStr ''x1'', english_text = JStr ''A dog ran.'',
            imageUrl = JUndefined, status = Pending\<rparr>])"
    using sample_import_x1_x1 by (simp add: handleBackupImport_def r) (simp add: sentence_x1_def)
  show ?thesis
    by (intro conjI 1 sample_parse_simps(8) t legacy_x1_props h) simp
qed

section \<open>Properties of the segmented snapshot import\<close>

text \<open>
  Claim C5 at a failing input.  The snapshot opens and has the table \<^verbatim>\<open>images\<close>;
  its first row has the id \<^verbatim>\<open>NULL\<close>, its second row is the image \<open>s2\<close>, which
  the store accepts.  The store rejects the \<^verbatim>\<open>put\<close> of the first row, and the import
  ends there with that rejection: the second row is not written and no count is
  returned.
\<close>

theorem snapshot_import_aborts_on_rejected_put:
  "opens chunk_null_then_s2 \<and> has_images_table chunk_null_then_s2 = Returns True
   \<and> image_rows chunk_null_then_s2 =
       Returns [(JNull, JStr ''data:image/png;base64,AAAA''),
                (JStr ''s2'', JStr ''data:image/png;base64,BBBB'')]
   \<and> importFromSQLite chunk_null_then_s2 [] = ([], Inl (StoreError DataError))
   \<and> saveImage (JStr ''s2'') (JStr ''data:image/png;base64,BBBB'') [] =
       Inr [(JStr ''s2'', JStr ''data:image/png;base64,BBBB'')]"
  by (simp add: chunk_null_then_s2_def importFromSQLite_def saveImage_def image_s2_def put_def)

text \<open>A buffer on which the constructor returns and the query on \<^verbatim>\<open>sqlite_master\<close>
  raises: the import ends with the error of the engine, which is neither the error of
  the format nor that of the schema.\<close>

lemma snapshot_import_engine_error:
  "importFromSQLite not_a_database store = (store, Inl EngineError)"
  by (simp add: not_a_database_def importFromSQLite_def)

section \<open>Properties of the backup export and of the round trip\<close>

lemma write_records_eq:
  "write_records fl t ls p =
     (ls, concat (map (reportProgress fl t) [Suc p ..< Suc (p + length ls)]), p + length ls)"
proof (induction ls arbitrary: p)
  case Nil show ?case by simp
next
  case (Cons l ls)
  have u: "[Suc p ..< Suc (p + length (l # ls))] = Suc p # [Suc (Suc p) ..< Suc (Suc p + length ls)]"
    by (simp add: upt_conv_Cons del: upt_Suc)
  show ?case
    unfolding u by (simp add: Cons.IH Let_def del: upt_Suc)
qed

lemma reports_filter:
  "concat (map (reportProgress fl t) js) =
     (if 0 < t then map (\<lambda>j. percent fl j t) (filter (\<lambda>j. j mod 50 = 0 \<or> j = t) js) else [])"
  by (induction js) (simp_all add: reportProgress_def)

lemma sorted_reports:
  assumes "rounding fl" "sorted js"
  shows "sorted (concat (map (reportProgress fl t) js))"
proof -
  have m: "sorted (map f xs)" if "sorted xs" "\<And>x y. x \<le> y \<Longrightarrow> f x \<le> f y"
    for f :: "nat \<Rightarrow> int" and xs
    using that by (induction xs) auto
  have "sorted (filter (\<lambda>j. j mod 50 = 0 \<or> j = t) js)"
    using assms(2) by (rule sorted_wrt_filter)
  then have "sorted (map (\<lambda>j. percent fl j t) (filter (\<lambda>j. j mod 50 = 0 \<or> j = t) js))"
    by (rule m) (rule percent_mono[OF assms(1)])
  then show ?thesis by (simp add: reports_filter)
qed

lemma last_reports:
  assumes "rounding fl" "0 < t"
  shows "concat (map (reportProgress fl t) [Suc 0 ..< Suc t]) \<noteq> []"
    and "last (concat (map (reportProgress fl t) [Suc 0 ..< Suc t])) = 100"
proof -
  have u: "[Suc 0 ..< Suc t] = [Suc 0 ..< t] @ [t]" using assms(2) by simp
  have f: "filter (\<lambda>j. j mod 50 = 0 \<or> j = t) [Suc 0 ..< Suc t] =
      filter (\<lambda>j. j mod 50 = 0 \<or> j = t) [Suc 0 ..< t] @ [t]"
    unfolding u by simp
  show "concat (map (reportProgress fl t) [Suc 0 ..< Suc t]) \<noteq> []"
    unfolding reports_filter f using assms(2) by simp
  show "last (concat (map (reportProgress fl t) [Suc 0 ..< Suc t])) = 100"
    unfolding reports_filter f using assms by (simp add: percent_full)
qed

lemma iterateImages_present_rows: "iterateImages store = present_rows store (getAllKeys store)"
  unfolding iterateImages_def present_rows_def Let_def
  by (induction "getAllKeys store") simp_all

lemma export_records:
  "map (\<lambda>s. stringify (sentence_record s) @ [newline]) sentences @
   map (\<lambda>r. stringify (image_record r) @ [newline]) (iterateImages store) =
   map (\<lambda>r. stringify r @ [newline]) (backup_records sentences store)"
  by (simp add: backup_records_def)

lemma exportBackup_single_path:
  assumes "single_path supports direct"
  shows "exportBackup fl stringify now supports direct sentences store =
     \<lparr>delivered = Some (map (\<lambda>l. l @ [newline]) (backup_lines stringify now sentences store)),
      progress = concat (map (reportProgress fl (length sentences + length (getAllKeys store)))
                   [Suc 0 ..< Suc (length (backup_records sentences store))])\<rparr>"
proof -
  have "\<not> supports \<or> (supports \<and> direct = Completes)"
    using assms by (auto simp: single_path_def)
  then show ?thesis
    by (auto simp: exportBackup_def Let_def export_records write_records_eq backup_lines_def
        simp del: upt_Suc)
qed

lemma exportBackup_delivered:
  assumes "delivered (exportBackup fl stringify now supports direct sentences store) = Some doc"
  shows "doc = map (\<lambda>l. l @ [newline]) (backup_lines stringify now sentences store)"
  using assms
  by (auto simp: exportBackup_def Let_def export_records write_records_eq backup_lines_def
      split: direct_outcome.splits if_splits simp del: upt_Suc)

lemma length_iterateImages_all:
  assumes "list_all truthy (map snd store)"
  shows "length (iterateImages store) = length (getAllKeys store)"
  unfolding iterateImages_present_rows
  by (rule length_present_rows_all[OF assms]) (simp add: getAllKeys_def)

text \<open>
  What holds of the progress reports.  Let the rounding to doubles be monotone and
  leave 1 and 100 unchanged.  The values that the segmented snapshot export reports
  are non-decreasing; they end with 100 when the store has a key and the export runs
  to its end.  The values that the backup export reports on a single delivery path are
  non-decreasing; they end with 100 when, in addition, every stored value converts to
  true and there is at least one sentence or key.
\<close>

lemma progress_reports_sorted:
  assumes "rounding fl"
  shows "sorted (announced (exportToSQLiteChunks rejects fl store))
     \<and> (ran_to_end (exportToSQLiteChunks rejects fl store) \<and> getAllKeys store \<noteq> [] \<longrightarrow>
            announced (exportToSQLiteChunks rejects fl store) \<noteq> [] \<and>
            last (announced (exportToSQLiteChunks rejects fl store)) = 100)
     \<and> (single_path supports direct \<longrightarrow>
            sorted (progress (exportBackup fl stringify now supports direct sentences store)))
     \<and> (single_path supports direct \<and> list_all truthy (map snd store) \<and>
          0 < length sentences + length (getAllKeys store) \<longrightarrow>
            progress (exportBackup fl stringify now supports direct sentences store) \<noteq> [] \<and>
            last (progress (exportBackup fl stringify now supports direct sentences store)) = 100)"
proof (intro conjI impI)
  let ?n = "length (getAllKeys store)"
  from export_announced[of store rejects fl] obtain m where m: "m \<le> ?n"
    and a: "announced (exportToSQLiteChunks rejects fl store) =
        map (\<lambda>j. percent fl j ?n) [Suc 0 ..< Suc m]"
    and full: "ran_to_end (exportToSQLiteChunks rejects fl store) \<Longrightarrow> m = ?n"
    by blast
  show "sorted (announced (exportToSQLiteChunks rejects fl store))"
    unfolding a by (rule sorted_percent_upt[OF assms])
  assume h: "ran_to_end (exportToSQLiteChunks rejects fl store) \<and> getAllKeys store \<noteq> []"
  then have n: "0 < ?n" by simp
  from h full have mn: "m = ?n" by simp
  have "Suc 0 \<le> ?n" using h by (cases "getAllKeys store") simp_all
  then have u: "[Suc 0 ..< Suc ?n] = [Suc 0 ..< ?n] @ [?n]" by (rule upt_Suc_append)
  show "announced (exportToSQLiteChunks rejects fl store) \<noteq> []"
    unfolding a mn u by simp
  show "last (announced (exportToSQLiteChunks rejects fl store)) = 100"
    unfolding a mn u using percent_full[OF assms n] by simp
next
  assume sp: "single_path supports direct"
  show "sorted (progress (exportBackup fl stringify now supports direct sentences store))"
    unfolding exportBackup_single_path[OF sp]
    by (simp del: upt_Suc) (rule sorted_reports[OF assms sorted_upt])
next
  let ?t = "length sentences + length (getAllKeys store)"
  assume a: "single_path supports direct \<and> list_all truthy (map snd store) \<and> 0 < ?t"
  then have len: "length (backup_records sentences store) = ?t"
    by (simp add: backup_records_def length_iterateImages_all)
  from a have sp: "single_path supports direct" and t: "0 < ?t" by simp_all
  show "progress (exportBackup fl stringify now supports direct sentences store) \<noteq> []"
    unfolding exportBackup_single_path[OF sp] len
    using last_reports(1)[OF assms t] by (simp del: upt_Suc)
  show "last (progress (exportBackup fl stringify now supports direct sentences store)) = 100"
    unfolding exportBackup_single_path[OF sp] len
    using last_reports(2)[OF assms t] by (simp del: upt_Suc)
qed

lemma percent_50_51: "percent exact 50 51 = 98"
proof -
  have "\<lfloor>(50 / 51 * 100 + 1 / 2 :: rat)\<rfloor> = 98" by (rule floor_unique) simp_all
  then show ?thesis by (simp add: percent_def Math_round_def exact_def)
qed

lemma filter_fifty: "filter (\<lambda>j. j mod 50 = 0 \<or> j = 51) [Suc 0 ..< 51] = [50]"
  by code_simp

text \<open>
  Claim C9 at a failing input.  The backup export of fifty sentences and a store whose
  only value is the empty string, delivered as a Blob: 51 items are expected, the key
  is skipped without being counted, so the counter stops at 50 and never equals the
  total.  The only value reported is 98; the final report of 100 is not made.
\<close>

theorem backup_export_final_report_missing:
  "length fifty_sentences + length (getAllKeys one_empty_image) = 51
   \<and> progress (exportBackup exact sample_stringify sample_now False Completes
         fifty_sentences one_empty_image) = [98]"
proof -
  have s: "single_path False Completes" by (simp add: single_path_def)
  have i: "iterateImages one_empty_image = []"
    by (simp add: iterateImages_def one_empty_image_def getAllKeys_def getImage_def store_get_def)
  have l: "length (backup_records fifty_sentences one_empty_image) = 50"
    by (simp add: backup_records_def i fifty_sentences_def)
  have t: "length fifty_sentences + length (getAllKeys one_empty_image) = 51"
    by (simp add: fifty_sentences_def one_empty_image_def getAllKeys_def)
  have "progress (exportBackup exact sample_stringify sample_now False Completes
         fifty_sentences one_empty_image) = [98]"
    unfolding exportBackup_single_path[OF s] l t
    by (simp add: reports_filter filter_fifty percent_50_51 del: upt_Suc)
  with t show ?thesis by simp
qed

lemma getImage_entry:
  assumes "distinct (map fst store)" "e \<in> set store" "truthy (snd e)"
  shows "getImage (fst e) store = snd e"
proof -
  have "map_of store (fst e) = Some (snd e)"
    using assms(1,2) by (intro map_of_is_SomeI) simp_all
  then show ?thesis using assms(3) by (simp add: getImage_map_of)
qed

lemma iterateImages_all:
  assumes "distinct (map fst store)" "list_all truthy (map snd store)"
  shows "iterateImages store = store"
proof -
  have g: "getImage (fst e) store = snd e" "truthy (getImage (fst e) store)" if "e \<in> set store" for e
    using getImage_entry[OF assms(1) that] assms(2) that by (auto simp: list_all_iff)
  have "present_rows db (map fst es) =
      map (\<lambda>e. (fst e, getImage (fst e) db)) (filter (\<lambda>e. truthy (getImage (fst e) db)) es)"
    for db and es :: image_store
    unfolding present_rows_def by (induction es) simp_all
  then have "iterateImages store =
      map (\<lambda>e. (fst e, getImage (fst e) store)) (filter (\<lambda>e. truthy (getImage (fst e) store)) store)"
    unfolding iterateImages_present_rows getAllKeys_def .
  also have "filter (\<lambda>e. truthy (getImage (fst e) store)) store = store"
    using g(2) by (intro filter_True) blast
  also have "map (\<lambda>e. (fst e, getImage (fst e) store)) store = map (\<lambda>e. e) store"
    using g(1) by (intro map_cong) simp_all
  finally show ?thesis by simp
qed

lemma put_new_key: "k \<notin> fst ` set store \<Longrightarrow> put v k store = store @ [(k, v)]"
  unfolding put_def by (induction store) auto

lemma put_all_fresh:
  "distinct (map fst (acc @ ws)) \<Longrightarrow> put_all ws acc = acc @ ws"
proof (induction ws arbitrary: acc)
  case Nil show ?case by simp
next
  case (Cons w ws)
  have "fst w \<notin> fst ` set acc" using Cons.prems by auto
  then have p: "put (snd w) (fst w) acc = acc @ [w]" by (simp add: put_new_key)
  have "distinct (map fst ((acc @ [w]) @ ws))" using Cons.prems by simp
  from Cons.IH[OF this] p show ?case by simp
qed

lemma map_of_put_all_entry:
  assumes "distinct (map fst ws)" "e \<in> set ws"
  shows "map_of (put_all ws store) (fst e) = Some (snd e)"
proof -
  have "map_of (rev ws) (fst e) = Some (snd e)"
    using assms by (intro map_of_is_SomeI) (simp_all add: rev_map[symmetric])
  then show ?thesis by (simp add: map_of_put_all)
qed

lemma codec_preservesD:
  assumes "codec_preserves parse stringify r"
  obtains r' where "parse (stringify r) = Some r'" "\<not> nullish r'"
    "prop_of r' ''type'' = prop_of r ''type''" "prop_of r' ''id'' = prop_of r ''id''"
    "prop_of r' ''base64'' = prop_of r ''base64''" "prop_of r' ''text'' = prop_of r ''text''"
    "newline \<notin> set (stringify r)" "\<not> blank (stringify r)"
  using assms by (auto simp: codec_preserves_def split: option.splits)

lemma process_header_line:
  assumes "codec_preserves parse stringify (header_record now n)"
  shows "process_line parse (stringify (header_record now n)) st = st"
proof -
  from assms obtain r' where r: "parse (stringify (header_record now n)) = Some r'" "\<not> nullish r'"
    "prop_of r' ''type'' = prop_of (header_record now n) ''type''"
    "prop_of r' ''id'' = prop_of (header_record now n) ''id''"
    "\<not> blank (stringify (header_record now n))"
    by (rule codec_preservesD)
  have "prop_of r' ''type'' = JStr ''header''" "prop_of r' ''id'' = JUndefined"
    using r(3,4) by (simp_all add: header_record_def)
  then show ?thesis
    using r(1,2,5) by (simp add: process_line_data dispatch_line_cases)
qed

lemma process_sentence_line:
  assumes "codec_preserves parse stringify (sentence_record s)"
  shows "process_line parse (stringify (sentence_record s)) st =
     st\<lparr>restoredSentences := restoredSentences st @ [restored_sentence s]\<rparr>"
proof -
  from assms obtain r' where r: "parse (stringify (sentence_record s)) = Some r'" "\<not> nullish r'"
    "prop_of r' ''type'' = prop_of (sentence_record s) ''type''"
    "prop_of r' ''id'' = prop_of (sentence_record s) ''id''"
    "prop_of r' ''text'' = prop_of (sentence_record s) ''text''"
    "\<not> blank (stringify (sentence_record s))"
    by (rule codec_preservesD)
  have "prop_of r' ''type'' = JStr ''sentence''" "prop_of r' ''id'' = sentence_id s"
    "prop_of r' ''text'' = english_text s"
    using r(3,4,5) by (simp_all add: sentence_record_def)
  then show ?thesis
    using r(1,2,6) by (simp add: process_line_data dispatch_line_cases restored_sentence_def)
qed

lemma process_image_line:
  assumes "codec_preserves parse stringify (image_record e)"
    and "truthy (fst e)" "truthy (snd e)" "valid_key (fst e)"
  shows "process_line parse (stringify (image_record e)) st =
     st\<lparr>idb := put (snd e) (fst e) (idb st), imageCount := imageCount st + 1\<rparr>"
proof -
  from assms(1) obtain r' where r: "parse (stringify (image_record e)) = Some r'" "\<not> nullish r'"
    "prop_of r' ''type'' = prop_of (image_record e) ''type''"
    "prop_of r' ''id'' = prop_of (image_record e) ''id''"
    "prop_of r' ''base64'' = prop_of (image_record e) ''base64''"
    "\<not> blank (stringify (image_record e))"
    by (rule codec_preservesD)
  have "prop_of r' ''type'' = JStr ''image''" "prop_of r' ''id'' = fst e"
    "prop_of r' ''base64'' = snd e"
    using r(3,4,5) by (simp_all add: image_record_def)
  then show ?thesis
    using r(1,2,6) assms(2-4) by (simp add: process_line_data dispatch_line_cases)
qed

lemma fold_sentence_lines:
  "list_all (codec_preserves parse stringify) (map sentence_record ss) \<Longrightarrow>
     fold (process_line parse) (map stringify (map sentence_record ss)) st =
       st\<lparr>restoredSentences := restoredSentences st @ map restored_sentence ss\<rparr>"
  by (induction ss arbitrary: st) (simp_all add: process_sentence_line)

lemma fold_image_lines:
  "list_all (codec_preserves parse stringify) (map image_record es) \<Longrightarrow>
   list_all truthy (map fst es) \<Longrightarrow> list_all truthy (map snd es) \<Longrightarrow>
   list_all valid_key (map fst es) \<Longrightarrow>
     fold (process_line parse) (map stringify (map image_record es)) st =
       st\<lparr>idb := put_all es (idb st), imageCount := imageCount st + length es\<rparr>"
  by (induction es arbitrary: st) (simp_all add: process_image_line)

lemma concat_newline_lines: "concat (map (\<lambda>l. l @ [newline]) ls) = unlines ls @ []"
  by (simp add: unlines_def)

lemma import_backup_lines:
  assumes cod: "list_all (codec_preserves parse stringify)
       (header_record now n # map sentence_record sentences @ map image_record es)"
    and tr: "list_all truthy (map fst es)" "list_all truthy (map snd es)"
    and vk: "list_all valid_key (map fst es)"
    and ch: "concat chunks = unlines (map stringify
       (header_record now n # map sentence_record sentences @ map image_record es))"
  shows "importBackup parse chunks target =
     \<lparr>idb = put_all es target, imageCount = length es,
      restoredSentences = map restored_sentence sentences, legacyImageIds = []\<rparr>"
proof -
  let ?rs = "header_record now n # map sentence_record sentences @ map image_record es"
  have nl: "list_all (\<lambda>l. newline \<notin> set l) (map stringify ?rs)"
    using cod by (auto simp: list_all_iff codec_preserves_def)
  have "importBackup parse chunks target =
      process_leftover parse [] (fold (process_line parse) (map stringify ?rs) (initial_state target))"
    using ch nl by (intro importBackup_lines') simp_all
  also have "\<dots> = fold (process_line parse) (map stringify ?rs) (initial_state target)"
    by (simp add: process_leftover_skip blank_Nil)
  also have "\<dots> = fold (process_line parse) (map stringify (map image_record es))
       (fold (process_line parse) (map stringify (map sentence_record sentences))
          (process_line parse (stringify (header_record now n)) (initial_state target)))"
    by simp
  also have "\<dots> = \<lparr>idb = put_all es target, imageCount = length es,
      restoredSentences = map restored_sentence sentences, legacyImageIds = []\<rparr>"
  proof -
    from cod have c: "codec_preserves parse stringify (header_record now n)"
      "list_all (codec_preserves parse stringify) (map sentence_record sentences)"
      "list_all (codec_preserves parse stringify) (map image_record es)"
      by simp_all
    show ?thesis
      unfolding process_header_line[OF c(1)] fold_sentence_lines[OF c(2)]
        fold_image_lines[OF c(3) tr vk]
      by (simp add: initial_state_def)
  qed
  finally show ?thesis .
qed

text \<open>
  Claim C1, as the code has it.  Let the store hold one entry per key, with keys the
  store accepts, and let every key and every value convert to true; let
  \<^verbatim>\<open>JSON.stringify\<close> and \<^verbatim>\<open>JSON.parse\<close> preserve the records of the backup.  Then,
  whichever path delivered the document and however the reads cut it, importing it
  into any store writes each entry of the exported store once, in order: the image
  count is the number of entries, every key of the exported store is in the resulting
  store with its value, the sentences are restored as pending, and no legacy id is
  reported.  Imported into an empty store, the document gives back the exported store.
\<close>

theorem backup_round_trip:
  assumes "wf_store store"
    and "list_all truthy (map fst store)" "list_all truthy (map snd store)"
    and "list_all (codec_preserves parse stringify)
           (header_record now (length (getAllKeys store)) # backup_records sentences store)"
    and "delivered (exportBackup fl stringify now supports direct sentences store) = Some doc"
    and "concat chunks = concat doc"
  shows "importBackup parse chunks target =
       \<lparr>idb = put_all store target, imageCount = length store,
        restoredSentences = map restored_sentence sentences, legacyImageIds = []\<rparr>
     \<and> (\<forall>e \<in> set store.
          getImage (fst e) (idb (importBackup parse chunks target)) = snd e)
     \<and> set (getAllKeys store) \<subseteq> set (getAllKeys (idb (importBackup parse chunks target)))
     \<and> importBackup parse chunks [] =
       \<lparr>idb = store, imageCount = length store,
        restoredSentences = map restored_sentence sentences, legacyImageIds = []\<rparr>"
proof -
  from assms(1) have d: "distinct (map fst store)" and vk: "list_all valid_key (map fst store)"
    by (simp_all add: wf_store_def)
  have it: "iterateImages store = store" by (rule iterateImages_all[OF d assms(3)])
  have recs: "backup_records sentences store = map sentence_record sentences @ map image_record store"
    by (simp add: backup_records_def it)
  have doc: "doc = map (\<lambda>l. l @ [newline]) (backup_lines stringify now sentences store)"
    by (rule exportBackup_delivered[OF assms(5)])
  have ch: "concat chunks = unlines (map stringify
       (header_record now (length (getAllKeys store)) # map sentence_record sentences @ map image_record store))"
    unfolding assms(6) doc backup_lines_def recs by (simp add: unlines_def)
  have r: "importBackup parse chunks t =
       \<lparr>idb = put_all store t, imageCount = length store,
        restoredSentences = map restored_sentence sentences, legacyImageIds = []\<rparr>" for t
    by (rule import_backup_lines[OF assms(4)[unfolded recs] assms(2,3) vk ch])
  have g: "getImage (fst e) (put_all store target) = snd e" if "e \<in> set store" for e
  proof -
    have "truthy (snd e)" using assms(3) that by (auto simp: list_all_iff)
    then show ?thesis
      using map_of_put_all_entry[OF d that, of target] by (simp add: getImage_map_of)
  qed
  have k: "set (getAllKeys store) \<subseteq> set (getAllKeys (put_all store target))"
    by (auto simp: getAllKeys_def keys_put_all)
  have e: "put_all store [] = store"
    using put_all_fresh[of "[]" store] d by simp
  show ?thesis
    using g k by (simp add: r e)
qed

lemma sample_codec:
  "codec_preserves sample_parse sample_stringify (header_record sample_now 2)"
  "codec_preserves sample_parse sample_stringify (sentence_record sentence_s1)"
  "codec_preserves sample_parse sample_stringify (image_record image_s1)"
  "codec_preserves sample_parse sample_stringify (image_record image_s2)"
  "codec_preserves sample_parse sample_stringify (image_record image_nokey)"
  by (simp_all add: codec_preserves_def sample_stringify_simps sample_parse_simps
      sample_lines_no_newline sample_lines_not_blank)
     (simp_all add: header_record_def sentence_record_def image_record_def)

lemma wf_two_images: "wf_store two_images"
  by (simp add: wf_store_def two_images_def image_s1_def image_s2_def)

lemma truthy_two_images:
  "list_all truthy (map fst two_images)" "list_all truthy (map snd two_images)"
  by (simp_all add: two_images_def image_s1_def image_s2_def)

lemma single_path_blob: "single_path False direct"
  by (simp add: single_path_def)

text \<open>The statement at the store with two images and one sentence, the document being
  read in two pieces that cut a line.\<close>

theorem backup_round_trip_witness:
  "wf_store two_images \<and> list_all truthy (map fst two_images) \<and> list_all truthy (map snd two_images)
   \<and> list_all (codec_preserves sample_parse sample_stringify)
        (header_record sample_now (length (getAllKeys two_images)) # backup_records [sentence_s1] two_images)
   \<and> delivered (exportBackup exact sample_stringify sample_now False Completes [sentence_s1] two_images)
       = Some [header_line_2 @ [newline], sentence_line_s1 @ [newline],
               image_line_s1 @ [newline], image_line_s2 @ [newline]]
   \<and> importBackup sample_parse
        [header_line_2 @ [newline] @ sentence_line_s1,
         [newline] @ image_line_s1 @ [newline] @ image_line_s2 @ [newline]] []
       = \<lparr>idb = two_images, imageCount = 2, restoredSentences = [sentence_s1], legacyImageIds = []\<rparr>"
proof -
  let ?doc = "[header_line_2 @ [newline], sentence_line_s1 @ [newline],
               image_line_s1 @ [newline], image_line_s2 @ [newline]]"
  let ?chunks = "[header_line_2 @ [newline] @ sentence_line_s1,
         [newline] @ image_line_s1 @ [newline] @ image_line_s2 @ [newline]]"
  have it: "iterateImages two_images = two_images"
    using wf_two_images truthy_two_images(2) by (intro iterateImages_all) (simp_all add: wf_store_def)
  have n: "length (getAllKeys two_images) = 2" by (simp add: getAllKeys_def two_images_def)
  have recs: "backup_records [sentence_s1] two_images =
      [sentence_record sentence_s1, image_record image_s1, image_record image_s2]"
    by (simp add: backup_records_def it) (simp add: two_images_def)
  have cod: "list_all (codec_preserves sample_parse sample_stringify)
        (header_record sample_now (length (getAllKeys two_images)) # backup_records [sentence_s1] two_images)"
    unfolding n recs by (simp add: sample_codec)
  have del: "delivered (exportBackup exact sample_stringify sample_now False Completes [sentence_s1] two_images)
       = Some ?doc"
    unfolding exportBackup_single_path[OF single_path_blob] backup_lines_def n recs
    by (simp add: sample_stringify_simps)
  have ch: "concat ?chunks = concat ?doc" by simp
  have rs: "map restored_sentence [sentence_s1] = [sentence_s1]"
    by (simp add: restored_sentence_def sentence_s1_def)
  have len: "length two_images = 2" by (simp add: two_images_def)
  note T = backup_round_trip[OF wf_two_images truthy_two_images cod del ch, of "[]"]
  have r: "importBackup sample_parse ?chunks []
       = \<lparr>idb = two_images, imageCount = 2, restoredSentences = [sentence_s1], legacyImageIds = []\<rparr>"
    using T[THEN conjunct2, THEN conjunct2, THEN conjunct2] unfolding rs len .
  show ?thesis
    by (intro conjI wf_two_images truthy_two_images cod del r)
qed

text \<open>Claim C1 as it is written fails on a store that holds an image under the empty
  string as key: the export writes its record, and the import skips it because
  \<^verbatim>\<open>data.id\<close> converts to false.  Two artifacts give one image write, and the
  empty key is missing from the store that the import fills.\<close>

theorem backup_round_trip_empty_key_counterexample:
  "wf_store image_without_key \<and> length image_without_key = 2
   \<and> list_all truthy (map snd image_without_key)
   \<and> list_all (codec_preserves sample_parse sample_stringify)
        (header_record sample_now (length (getAllKeys image_without_key)) #
         backup_records [] image_without_key)
   \<and> delivered (exportBackup exact sample_stringify sample_now False Completes [] image_without_key)
       = Some [header_line_2 @ [newline], image_line_nokey @ [newline], image_line_s2 @ [newline]]
   \<and> importBackup sample_parse
        [header_line_2 @ [newline], image_line_nokey @ [newline], image_line_s2 @ [newline]] []
       = \<lparr>idb = [image_s2], imageCount = 1, restoredSentences = [], legacyImageIds = []\<rparr>"
proof -
  have wf: "wf_store image_without_key"
    by (simp add: wf_store_def image_without_key_def image_nokey_def image_s2_def)
  have tr: "list_all truthy (map snd image_without_key)"
    by (simp add: image_without_key_def image_nokey_def image_s2_def)
  have it: "iterateImages image_without_key = image_without_key"
    using wf tr by (intro iterateImages_all) (simp_all add: wf_store_def)
  have n: "length (getAllKeys image_without_key) = 2"
    by (simp add: getAllKeys_def image_without_key_def)
  have recs: "backup_records [] image_without_key = [image_record image_nokey, image_record image_s2]"
    by (simp add: backup_records_def it) (simp add: image_without_key_def)
  have cod: "list_all (codec_preserves sample_parse sample_stringify)
        (header_record sample_now (length (getAllKeys image_without_key)) #
         backup_records [] image_without_key)"
    unfolding n recs by (simp add: sample_codec)
  have del: "delivered (exportBackup exact sample_stringify sample_now False Completes [] image_without_key)
       = Some [header_line_2 @ [newline], image_line_nokey @ [newline], image_line_s2 @ [newline]]"
    unfolding exportBackup_single_path[OF single_path_blob] backup_lines_def n recs
    by (simp add: sample_stringify_simps)
  have i: "importBackup sample_parse
        [header_line_2 @ [newline], image_line_nokey @ [newline], image_line_s2 @ [newline]] [] =
      process_leftover sample_parse []
        (fold (process_line sample_parse) [header_line_2, image_line_nokey, image_line_s2]
           (initial_state []))"
    by (rule importBackup_lines') (simp_all add: unlines_def sample_lines_no_newline)
  have h: "process_line sample_parse header_line_2 st = st" for st
    using process_header_line[OF sample_codec(1), of st] by (simp add: sample_stringify_simps)
  have k: "process_line sample_parse image_line_nokey st = st" for st
    by (simp add: process_line_data[of image_line_nokey sample_parse, OF sample_lines_not_blank(7) sample_parse_simps(7)]
        dispatch_line_cases image_record_def image_nokey_def)
  have m: "process_line sample_parse image_line_s2 st = image_written (image_record image_s2) st" for st
    by (rule process_line_image[of image_line_s2 sample_parse, OF sample_lines_not_blank(6) sample_parse_simps(6) sample_shapes(2)])
  have r: "importBackup sample_parse
        [header_line_2 @ [newline], image_line_nokey @ [newline], image_line_s2 @ [newline]] []
       = \<lparr>idb = [image_s2], imageCount = 1, restoredSentences = [], legacyImageIds = []\<rparr>"
    unfolding i
    by (simp add: h k m process_leftover_skip blank_Nil initial_state_def image_written_def
        image_record_def image_s2_def put_def)
  have l: "length image_without_key = 2" by (simp add: image_without_key_def)
  show ?thesis
    by (intro conjI wf l tr cod del r)
qed

end
